theory Spec2Isabelle
  imports Complex_Main "HOL-Library.Word" "HOL-Library.Monad_Syntax"
begin

section \<open>Conventions\<close>

text \<open>
  The development embeds the reading engine of the front end: the page segmenter, the
  read-aloud effect and the recorder of the document reader component, and the word
  matcher and the encouragement messages of the sentence practice component.

  JavaScript strings are modelled as \<^typ>\<open>string\<close>, one \<^typ>\<open>char\<close> per code unit
  below 256 (for the messages that hold characters outside ASCII, the UTF-8 bytes of the
  source file). JavaScript numbers are IEEE doubles; the model reads a finite double
  as the \<^typ>\<open>real\<close> it denotes. Comparisons are those of the reals. The thresholds of
  the segmenter are products of doubles: they are rounded to the nearest double as the
  language does. The products of the encoder, a clamped 32-bit float times \<open>2^15\<close> or
  \<open>2^15 - 1\<close>, are exact in doubles.
\<close>

section \<open>Encouragement messages (SentencePractice.js, getEncouragement)\<close>





section \<open>Strings and the regular expressions of the reader\<close>

text \<open>
  \<open>String.prototype.trim\<close> removes white space and line terminators from both ends; below
  256 these are the code units 9 to 13, 32 and 160.
\<close>

definition is_space :: "char \<Rightarrow> bool" where
  "is_space c \<longleftrightarrow>
     c \<in> {CHR 0x09, CHR 0x0A, CHR 0x0B, CHR 0x0C, CHR 0x0D, CHR 0x20, CHR 0xA0}"

definition trim :: "string \<Rightarrow> string" where
  "trim s = rev (dropWhile is_space (rev (dropWhile is_space s)))"

text \<open>The character class \<^verbatim>\<open>[.!?]\<close>.\<close>

definition terminal :: "char \<Rightarrow> bool" where
  "terminal c \<longleftrightarrow> c = CHR ''.'' \<or> c = CHR ''!'' \<or> c = CHR ''?''"

text \<open>\<^verbatim>\<open>/[.!?]/.test(s)\<close>: some character of \<open>s\<close> is terminal.\<close>

definition has_terminal :: "string \<Rightarrow> bool" where
  "has_terminal s = list_ex terminal s"

text \<open>\<^verbatim>\<open>/[.!?]$/.test(s)\<close>: the last character of \<open>s\<close> is terminal.\<close>

definition ends_terminal :: "string \<Rightarrow> bool" where
  "ends_terminal s \<longleftrightarrow> s \<noteq> [] \<and> terminal (last s)"

text \<open>
  \<^verbatim>\<open>s.match(/[^.!?]+[.!?]+|[^.!?]+$/g)\<close>: all matches, left to right. No match starts at a
  terminal character. At any other character the greedy first alternative takes the
  longest run of non-terminal characters and the longest run of terminal characters
  after it; when that run of non-terminal characters reaches the end of the string the
  first alternative fails and the second takes the run. The search goes on after the
  match. The result is the empty list where JavaScript returns \<open>null\<close>.
\<close>

function match_sentences :: "string \<Rightarrow> string list" where
  "match_sentences [] = []"
| "match_sentences (c # cs) =
     (if terminal c then match_sentences cs
      else
        let body = takeWhile (\<lambda>x. \<not> terminal x) (c # cs);
            rest = dropWhile (\<lambda>x. \<not> terminal x) (c # cs);
            stops = takeWhile terminal rest
        in (body @ stops) # match_sentences (dropWhile terminal rest))"
  by pat_completeness auto
termination
proof (relation "measure length")
  fix c :: char and cs body rest
  assume "\<not> terminal c"
    and "rest = dropWhile (\<lambda>x. \<not> terminal x) (c # cs)"
  then have "rest = dropWhile (\<lambda>x. \<not> terminal x) cs" by simp
  then have "length (dropWhile terminal rest) \<le> length cs"
    using length_dropWhile_le [of terminal rest]
      length_dropWhile_le [of "\<lambda>x. \<not> terminal x" cs] by simp
  then show "(dropWhile terminal rest, c # cs) \<in> measure length" by simp
qed simp_all

text \<open>\<^verbatim>\<open>fullText.match(...) || [fullText]\<close>.\<close>

definition raw_pieces :: "string \<Rightarrow> string list" where
  "raw_pieces fullText =
     (case match_sentences fullText of [] \<Rightarrow> [fullText] | m # ms \<Rightarrow> m # ms)"

text \<open>
  \<^verbatim>\<open>/^\(?[0-9a-zA-Z]{1,2}(\.|\))$/.test(t)\<close>: an optional opening parenthesis, one or two
  ASCII letters or digits, then a full stop or a closing parenthesis, and nothing else.
\<close>

definition alnum :: "char \<Rightarrow> bool" where
  "alnum c \<longleftrightarrow>
     c \<in> set (''0123456789'' @ ''abcdefghijklmnopqrstuvwxyz'' @ ''ABCDEFGHIJKLMNOPQRSTUVWXYZ'')"

fun serial_body :: "string \<Rightarrow> bool" where
  "serial_body [a, p] \<longleftrightarrow> alnum a \<and> (p = CHR ''.'' \<or> p = CHR '')'')"
| "serial_body [a, b, p] \<longleftrightarrow> alnum a \<and> alnum b \<and> (p = CHR ''.'' \<or> p = CHR '')'')"
| "serial_body _ \<longleftrightarrow> False"

definition serial_marker :: "string \<Rightarrow> bool" where
  "serial_marker t =
     (case t of [] \<Rightarrow> False
      | c # r \<Rightarrow> if c = CHR ''('' then serial_body r else serial_body (c # r))"

section \<open>Double-precision products\<close>

text \<open>
  The binary exponent of a positive number: the \<open>e\<close> with \<open>2^e \<le> x < 2^(e + 1)\<close>.
\<close>

function binary_exponent :: "real \<Rightarrow> int" where
  "binary_exponent x =
     (if x \<ge> 2 then binary_exponent (x / 2) + 1
      else if 0 < x \<and> x < 1 then binary_exponent (x * 2) - 1
      else 0)"
  by pat_completeness auto
termination
proof (relation "measure (\<lambda>x. nat \<bar>\<lfloor>log 2 x\<rfloor>\<bar>)")
  show "wf (measure (\<lambda>x. nat \<bar>\<lfloor>log 2 x\<rfloor>\<bar>))" by simp
next
  fix x :: real
  assume x: "2 \<le> x"
  then have "1 \<le> log 2 x" by (simp add: le_log_iff)
  then have "1 \<le> \<lfloor>log 2 x\<rfloor>" by (simp add: le_floor_iff)
  moreover have "log 2 (x / 2) = log 2 x - 1" using x by (simp add: log_divide)
  then have "\<lfloor>log 2 (x / 2)\<rfloor> = \<lfloor>log 2 x\<rfloor> - 1" by simp
  ultimately show "(x / 2, x) \<in> measure (\<lambda>x. nat \<bar>\<lfloor>log 2 x\<rfloor>\<bar>)"
    unfolding in_measure by arith
next
  fix x :: real
  assume "\<not> 2 \<le> x" and x: "0 < x \<and> x < 1"
  then have "log 2 x < 0" by simp
  then have "\<lfloor>log 2 x\<rfloor> < 0" by (simp add: floor_less_iff)
  moreover have "log 2 (x * 2) = log 2 x + 1" using x by (simp add: log_mult)
  then have "\<lfloor>log 2 (x * 2)\<rfloor> = \<lfloor>log 2 x\<rfloor> + 1" by simp
  ultimately show "(x * 2, x) \<in> measure (\<lambda>x. nat \<bar>\<lfloor>log 2 x\<rfloor>\<bar>)"
    unfolding in_measure by arith
qed

declare binary_exponent.simps [simp del]

text \<open>
  Rounding to the nearest double, ties to the even significand: a number of binary
  exponent \<open>e\<close> is rounded to a multiple of \<open>2^(e - 52)\<close>, below \<open>2^(-1022)\<close> to a multiple
  of \<open>2^(-1074)\<close>. Numbers of magnitude \<open>2^1024\<close> and more, which round to an infinity,
  are outside the model. A number literal of the source denotes the double nearest to
  it, and \<open>x * y\<close> is the double nearest to the product.
\<close>

definition pow2 :: "int \<Rightarrow> real" where
  "pow2 e = (if e \<ge> 0 then 2 ^ nat e else 1 / 2 ^ nat (- e))"

definition round_half_even :: "real \<Rightarrow> int" where
  "round_half_even q =
     (let f = \<lfloor>q\<rfloor>; d = q - of_int f
      in if d < 1 / 2 then f else if d > 1 / 2 then f + 1 else if even f then f else f + 1)"

definition nearest_double :: "real \<Rightarrow> real" where
  "nearest_double x =
     (if x = 0 then 0
      else let u = pow2 (max (binary_exponent \<bar>x\<bar>) (- 1022) - 52)
           in sgn x * (u * of_int (round_half_even (\<bar>x\<bar> / u))))"

definition js_times :: "real \<Rightarrow> real \<Rightarrow> real" where
  "js_times x y = nearest_double (x * y)"

section \<open>The page segmenter (DocumentReader, onPageLoadSuccess)\<close>

text \<open>
  A text item of the page as the renderer reports it: its string and the entries 3 and 5
  of its transform (the signed glyph height and the baseline Y).
\<close>

record item =
  str :: string
  transform3 :: real
  transform5 :: real

record sentence =
  stext :: string
  isMetadata :: bool
  itemIndices :: "nat list"

text \<open>The three variables the callback of \<open>items.forEach\<close> updates.\<close>

record seg_state =
  allSentences :: "sentence list"
  fullText :: string
  currentItemIndices :: "nat list"

text \<open>
  \<^verbatim>\<open>heights[Math.floor(heights.length / 2)] || 12\<close> over the ascending absolute heights:
  the fallback 12 replaces a median of 0. The list of items is not empty here.
\<close>

definition heights :: "item list \<Rightarrow> real list" where
  "heights items = sort (map (\<lambda>it. \<bar>transform3 it\<bar>) items)"

definition medianHeight :: "item list \<Rightarrow> real" where
  "medianHeight items =
     (let m = heights items ! (length (heights items) div 2)
      in if m = 0 then 12 else m)"

definition isHeading :: "real \<Rightarrow> item \<Rightarrow> bool" where
  "isHeading headingThreshold it \<longleftrightarrow> \<bar>transform3 it\<bar> > headingThreshold"

definition isSerial :: "item \<Rightarrow> bool" where
  "isSerial it = serial_marker (trim (str it))"

definition isHeaderOrFooter :: "real \<Rightarrow> real \<Rightarrow> item \<Rightarrow> bool" where
  "isHeaderOrFooter footerThreshold headerThreshold it \<longleftrightarrow>
     transform5 it < footerThreshold \<or> transform5 it > headerThreshold"

definition classify :: "real \<Rightarrow> real \<Rightarrow> real \<Rightarrow> item \<Rightarrow> bool" where
  "classify footerThreshold headerThreshold headingThreshold it \<longleftrightarrow>
     isHeading headingThreshold it \<or> isSerial it \<or>
     isHeaderOrFooter footerThreshold headerThreshold it"

text \<open>
  The flush of the accumulator: every piece of the accumulated text that is not blank
  becomes a sentence, and every such sentence carries the whole list of indices.
\<close>

definition flush_pieces :: "string \<Rightarrow> nat list \<Rightarrow> sentence list" where
  "flush_pieces ft idxs =
     map (\<lambda>s. \<lparr>stext = trim s, isMetadata = False, itemIndices = idxs\<rparr>)
       (filter (\<lambda>s. trim s \<noteq> []) (raw_pieces ft))"

definition flush :: "seg_state \<Rightarrow> seg_state" where
  "flush st =
     (if trim (fullText st) \<noteq> []
      then \<lparr>allSentences =
              allSentences st @ flush_pieces (fullText st) (currentItemIndices st),
            fullText = [], currentItemIndices = []\<rparr>
      else st)"

text \<open>The metadata branch of the callback.\<close>

definition metadata_step :: "seg_state \<Rightarrow> item \<Rightarrow> nat \<Rightarrow> seg_state" where
  "metadata_step st it idx =
     (let st' = flush st
      in st'\<lparr>allSentences :=
               allSentences st' @
               [\<lparr>stext = trim (str it), isMetadata = True, itemIndices = [idx]\<rparr>]\<rparr>)"

text \<open>
  The body branch of the callback: the item is appended to the accumulator; when its
  string holds a terminal character and the accumulated text has more than one piece, or
  one piece and a terminal last character once trimmed, the whole accumulated text is
  pushed as one sentence.
\<close>

definition body_step :: "seg_state \<Rightarrow> item \<Rightarrow> nat \<Rightarrow> seg_state" where
  "body_step st it idx =
     (let ft = fullText st @ str it @ '' '';
          idxs = currentItemIndices st @ [idx];
          raw = raw_pieces ft
      in if has_terminal (str it) \<and>
            (length raw > 1 \<or> (length raw = 1 \<and> ends_terminal (trim ft)))
         then \<lparr>allSentences =
                 allSentences st @
                 [\<lparr>stext = trim ft, isMetadata = False, itemIndices = idxs\<rparr>],
               fullText = [], currentItemIndices = []\<rparr>
         else \<lparr>allSentences = allSentences st, fullText = ft,
               currentItemIndices = idxs\<rparr>)"

definition segment_item ::
  "real \<Rightarrow> real \<Rightarrow> real \<Rightarrow> seg_state \<Rightarrow> item \<times> nat \<Rightarrow> seg_state" where
  "segment_item footerThreshold headerThreshold headingThreshold st p =
     (case p of (it, idx) \<Rightarrow>
        if str it = [] then st
        else if classify footerThreshold headerThreshold headingThreshold it
        then metadata_step st it idx
        else body_step st it idx)"

definition seg_init :: seg_state where
  "seg_init = \<lparr>allSentences = [], fullText = [], currentItemIndices = []\<rparr>"

text \<open>
  The thresholds of the page: \<^verbatim>\<open>pageHeight * 0.1\<close>, \<^verbatim>\<open>pageHeight * 0.9\<close> and
  \<^verbatim>\<open>medianHeight * 1.3\<close>.
\<close>

definition footerThreshold :: "real \<Rightarrow> real" where
  "footerThreshold pageHeight = js_times pageHeight (nearest_double 0.1)"

definition headerThreshold :: "real \<Rightarrow> real" where
  "headerThreshold pageHeight = js_times pageHeight (nearest_double 0.9)"

definition headingThreshold :: "item list \<Rightarrow> real" where
  "headingThreshold items = js_times (medianHeight items) (nearest_double 1.3)"

text \<open>The state after \<open>items.forEach\<close>, before the last flush.\<close>

definition segment_items :: "real \<Rightarrow> item list \<Rightarrow> seg_state" where
  "segment_items pageHeight items =
     foldl (segment_item (footerThreshold pageHeight) (headerThreshold pageHeight)
              (headingThreshold items))
       seg_init (zip items [0..<length items])"

text \<open>
  The list handed to \<open>setLocalSentences\<close>; a page without items returns early and leaves
  the empty list set at the start.
\<close>

definition onPageLoadSuccess :: "real \<Rightarrow> item list \<Rightarrow> sentence list" where
  "onPageLoadSuccess pageHeight items =
     (if items = [] then [] else allSentences (flush (segment_items pageHeight items)))"

section \<open>The read-aloud effect (DocumentReader, reading logic)\<close>

text \<open>
  The state the effect reads: the sentences of the page, the active index and the
  \<open>isReading\<close> property of the parent, which the component never writes. The calls to
  \<open>window.speechSynthesis\<close> are recorded in order; the voice and the rate of an utterance
  are left out.
\<close>

record reader =
  localSentences :: "sentence list"
  activeSentenceIndex :: nat
  parentIsReading :: bool

datatype speech = Cancel | Speak string

text \<open>
  \<^verbatim>\<open>while (nextIdx < localSentences.length && localSentences[nextIdx].isMetadata) nextIdx++\<close>
\<close>

function skip_metadata :: "sentence list \<Rightarrow> nat \<Rightarrow> nat" where
  "skip_metadata sents nextIdx =
     (if nextIdx < length sents \<and> isMetadata (sents ! nextIdx)
      then skip_metadata sents (Suc nextIdx) else nextIdx)"
  by pat_completeness auto
termination
  by (relation "measure (\<lambda>(sents, nextIdx). length sents - nextIdx)") auto

declare skip_metadata.simps [simp del]

text \<open>One run of the effect: the new state and the calls to the speech engine.\<close>

definition reading_effect :: "reader \<Rightarrow> reader \<times> speech list" where
  "reading_effect r =
     (if parentIsReading r \<and> length (localSentences r) > 0 then
        if activeSentenceIndex r \<ge> length (localSentences r) then (r, [])
        else
          let sentenceObj = localSentences r ! activeSentenceIndex r
          in if isMetadata sentenceObj then
               let nextIdx = skip_metadata (localSentences r) (activeSentenceIndex r + 1)
               in if nextIdx < length (localSentences r)
                  then (r\<lparr>activeSentenceIndex := nextIdx\<rparr>, [])
                  else (r, [Cancel])
             else (r, [Cancel, Speak (stext sentenceObj)])
      else (r, [Cancel]))"

text \<open>
  The \<open>onend\<close> handler of the utterance created while the active index was \<open>i\<close> and the
  sentence list \<open>sents\<close>: both are captured by the closure, the update of the index is
  applied to the state at the time of the call.
\<close>

definition utterance_onend :: "nat \<Rightarrow> sentence list \<Rightarrow> reader \<Rightarrow> reader" where
  "utterance_onend i sents r =
     (if int i < int (length sents) - 1
      then r\<lparr>activeSentenceIndex := activeSentenceIndex r + 1\<rparr>
      else r)"

text \<open>
  The active index is a dependency of the effect: when a run of the effect changes it,
  the effect runs again on the new state. \<open>play\<close> follows these runs until the index
  stays, and collects the calls.
\<close>

function play :: "reader \<Rightarrow> reader \<times> speech list" where
  "play r =
     (case reading_effect r of
        (r', calls) \<Rightarrow>
          if activeSentenceIndex r' \<noteq> activeSentenceIndex r
          then (case play r' of (r'', calls') \<Rightarrow> (r'', calls @ calls'))
          else (r', calls))"
  by pat_completeness auto
termination
proof (relation "measure (\<lambda>r. length (localSentences r) - activeSentenceIndex r)")
  fix r r' :: reader and calls
  assume eff: "(r', calls) = reading_effect r"
    and ne: "activeSentenceIndex r' \<noteq> activeSentenceIndex r"
  define n where "n = skip_metadata (localSentences r) (activeSentenceIndex r + 1)"
  from eff ne have r': "r' = r\<lparr>activeSentenceIndex := n\<rparr>" and lt: "n < length (localSentences r)"
    by (auto simp: reading_effect_def Let_def n_def split: if_splits)
  have ge: "m \<le> skip_metadata sents m" for sents m
  proof (induction sents m rule: skip_metadata.induct)
    case (1 sents nextIdx)
    show ?case
    proof (cases "nextIdx < length sents \<and> isMetadata (sents ! nextIdx)")
      case True
      with "1" have "Suc nextIdx \<le> skip_metadata sents (Suc nextIdx)" by simp
      with True show ?thesis by (subst skip_metadata.simps) simp
    next
      case False
      then show ?thesis by (subst skip_metadata.simps) auto
    qed
  qed
  have "activeSentenceIndex r + 1 \<le> n" unfolding n_def by (rule ge)
  with r' lt show "(r', r) \<in> measure (\<lambda>r. length (localSentences r) - activeSentenceIndex r)"
    by simp
qed simp

declare play.simps [simp del]

section \<open>The recorder (DocumentReader, startRecording and encodeWav)\<close>

type_synonym byte = "8 word"

text \<open>
  A sample as the encoder reads it from the channel data: a finite number, an infinity or
  NaN.
\<close>

datatype number = NaN | NegInfinity | PosInfinity | Finite real

text \<open>\<^verbatim>\<open>Math.min(1, x)\<close> and \<^verbatim>\<open>Math.max(-1, x)\<close>.\<close>

fun math_min_1 :: "number \<Rightarrow> number" where
  "math_min_1 NaN = NaN"
| "math_min_1 NegInfinity = NegInfinity"
| "math_min_1 PosInfinity = Finite 1"
| "math_min_1 (Finite x) = Finite (min 1 x)"

fun math_max_neg1 :: "number \<Rightarrow> number" where
  "math_max_neg1 NaN = NaN"
| "math_max_neg1 NegInfinity = Finite (- 1)"
| "math_max_neg1 PosInfinity = PosInfinity"
| "math_max_neg1 (Finite x) = Finite (max (- 1) x)"

text \<open>\<^verbatim>\<open>s < 0\<close>, and \<^verbatim>\<open>s * c\<close> for a positive constant \<open>c\<close>.\<close>

fun less_zero :: "number \<Rightarrow> bool" where
  "less_zero NaN = False"
| "less_zero NegInfinity = True"
| "less_zero PosInfinity = False"
| "less_zero (Finite x) = (x < 0)"

fun times_const :: "number \<Rightarrow> real \<Rightarrow> number" where
  "times_const NaN c = NaN"
| "times_const NegInfinity c = NegInfinity"
| "times_const PosInfinity c = PosInfinity"
| "times_const (Finite x) c = Finite (x * c)"

text \<open>
  The conversion \<open>ToInt16\<close> that \<open>DataView.setInt16\<close> applies: NaN and the infinities
  become 0, a finite number is truncated towards zero and reduced modulo \<open>2^16\<close>.
\<close>

definition js_trunc :: "real \<Rightarrow> int" where
  "js_trunc x = (if x \<ge> 0 then \<lfloor>x\<rfloor> else \<lceil>x\<rceil>)"

fun ToInt16 :: "number \<Rightarrow> 16 word" where
  "ToInt16 (Finite x) = word_of_int (js_trunc x)"
| "ToInt16 _ = 0"

text \<open>
  \<^verbatim>\<open>const s = Math.max(-1, Math.min(1, samples[i]))\<close> and the value
  \<^verbatim>\<open>s < 0 ? s * 0x8000 : s * 0x7FFF\<close> handed to \<open>setInt16\<close>.
\<close>

definition clamp_sample :: "number \<Rightarrow> number" where
  "clamp_sample x = math_max_neg1 (math_min_1 x)"

definition scale_sample :: "number \<Rightarrow> number" where
  "scale_sample s = (if less_zero s then times_const s 0x8000 else times_const s 0x7FFF)"

text \<open>
  The setters of \<open>DataView\<close>, little-endian; \<open>None\<close> stands for the \<open>RangeError\<close> of a
  write outside the buffer.
\<close>

definition setUint8 :: "byte list \<Rightarrow> nat \<Rightarrow> nat \<Rightarrow> byte list option" where
  "setUint8 view byteOffset v =
     (if byteOffset + 1 \<le> length view then Some (view[byteOffset := of_nat v]) else None)"

definition setUint16 :: "byte list \<Rightarrow> nat \<Rightarrow> nat \<Rightarrow> byte list option" where
  "setUint16 view byteOffset v =
     (if byteOffset + 2 \<le> length view
      then Some (view[byteOffset := of_nat v, byteOffset + 1 := of_nat (v div 2 ^ 8)])
      else None)"

definition setUint32 :: "byte list \<Rightarrow> nat \<Rightarrow> nat \<Rightarrow> byte list option" where
  "setUint32 view byteOffset v =
     (if byteOffset + 4 \<le> length view
      then Some (view[byteOffset := of_nat v, byteOffset + 1 := of_nat (v div 2 ^ 8),
                      byteOffset + 2 := of_nat (v div 2 ^ 16),
                      byteOffset + 3 := of_nat (v div 2 ^ 24)])
      else None)"

definition setInt16 :: "byte list \<Rightarrow> nat \<Rightarrow> number \<Rightarrow> byte list option" where
  "setInt16 view byteOffset x =
     (if byteOffset + 2 \<le> length view
      then Some (view[byteOffset := ucast (ToInt16 x),
                      byteOffset + 1 := ucast (drop_bit 8 (ToInt16 x))])
      else None)"

fun writeString :: "byte list \<Rightarrow> nat \<Rightarrow> string \<Rightarrow> byte list option" where
  "writeString view offset [] = Some view"
| "writeString view offset (c # cs) =
     do { view' \<leftarrow> setUint8 view offset (of_char c); writeString view' (offset + 1) cs }"

text \<open>The loop that writes the PCM samples, two bytes each, from \<open>offset\<close> on.\<close>

fun write_samples :: "byte list \<Rightarrow> nat \<Rightarrow> number list \<Rightarrow> byte list option" where
  "write_samples view offset [] = Some view"
| "write_samples view offset (x # xs) =
     do {
       view' \<leftarrow> setInt16 view offset (scale_sample (clamp_sample x));
       write_samples view' (offset + 2) xs
     }"

definition encodeWav :: "number list \<Rightarrow> nat \<Rightarrow> byte list option" where
  "encodeWav samples sampleRate =
     do {
       let view = replicate (44 + length samples * 2) 0;
       view \<leftarrow> writeString view 0 ''RIFF'';
       view \<leftarrow> setUint32 view 4 (36 + length samples * 2);
       view \<leftarrow> writeString view 8 ''WAVE'';
       view \<leftarrow> writeString view 12 ''fmt '';
       view \<leftarrow> setUint32 view 16 16;
       view \<leftarrow> setUint16 view 20 1;
       view \<leftarrow> setUint16 view 22 1;
       view \<leftarrow> setUint32 view 24 sampleRate;
       view \<leftarrow> setUint32 view 28 (sampleRate * 2);
       view \<leftarrow> setUint16 view 32 2;
       view \<leftarrow> setUint16 view 34 16;
       view \<leftarrow> writeString view 36 ''data'';
       view \<leftarrow> setUint32 view 40 (length samples * 2);
       write_samples view 44 samples
     }"

text \<open>
  The decoded audio: its sample rate and the sample data of its channels. Decoding is
  done by the browser; the recorder takes the decoder as a parameter, \<open>None\<close> for a
  recording it rejects.
\<close>

record audio_buffer =
  sampleRate :: nat
  channelData :: "number list list"

record blob =
  blob_data :: "byte list"
  blob_type :: string

datatype convert_error = DecodeError | IndexSizeError | RangeError

text \<open>\<open>getChannelData(0)\<close> fails on a buffer without channels.\<close>

definition getChannelData0 :: "audio_buffer \<Rightarrow> number list option" where
  "getChannelData0 b = (case channelData b of [] \<Rightarrow> None | c # _ \<Rightarrow> Some c)"

definition convertToWav ::
  "(byte list \<Rightarrow> audio_buffer option) \<Rightarrow> blob \<Rightarrow> convert_error + blob" where
  "convertToWav decodeAudioData b =
     (case decodeAudioData (blob_data b) of
        None \<Rightarrow> Inl DecodeError
      | Some audioBuffer \<Rightarrow>
          (case getChannelData0 audioBuffer of
             None \<Rightarrow> Inl IndexSizeError
           | Some pcmData \<Rightarrow>
               (case encodeWav pcmData 16000 of
                  None \<Rightarrow> Inl RangeError
                | Some wavBuffer \<Rightarrow> Inr \<lparr>blob_data = wavBuffer, blob_type = ''audio/wav''\<rparr>)))"

text \<open>
  The \<open>onstop\<close> handler of the recorder, as the calls it makes in order: the blob handed
  to \<open>onPractice\<close>, then \<open>stop\<close> on every track of the stream. The messages written to the
  console are left out.
\<close>

datatype 'track recorder_call = OnPractice blob | TrackStop 'track

definition recorder_onstop ::
  "(byte list \<Rightarrow> audio_buffer option) \<Rightarrow> byte list list \<Rightarrow> 'track list \<Rightarrow>
   'track recorder_call list" where
  "recorder_onstop decodeAudioData audioChunks tracks =
     (let webmBlob = \<lparr>blob_data = concat audioChunks, blob_type = ''audio/webm''\<rparr>
      in (case convertToWav decodeAudioData webmBlob of
            Inr wavBlob \<Rightarrow> [OnPractice wavBlob]
          | Inl err \<Rightarrow> [OnPractice webmBlob])
         @ map TrackStop tracks)"

section \<open>Word matching (SentencePractice.js, getWordMatchMap)\<close>

text \<open>
  \<open>toLowerCase\<close>, for ASCII text: the letters A to Z are lowered, every other character
  is kept.
\<close>

definition lower_char :: "char \<Rightarrow> char" where
  "lower_char c =
     (case map_of (zip ''ABCDEFGHIJKLMNOPQRSTUVWXYZ'' ''abcdefghijklmnopqrstuvwxyz'') c of
        None \<Rightarrow> c | Some l \<Rightarrow> l)"

definition toLowerCase :: "string \<Rightarrow> string" where
  "toLowerCase s = map lower_char s"

text \<open>\<^verbatim>\<open>s.split(" ")\<close>: the pieces between single spaces, empty pieces included.\<close>

fun split_space :: "string \<Rightarrow> string list" where
  "split_space [] = [[]]"
| "split_space (c # cs) =
     (if c = CHR '' '' then [] # split_space cs
      else (case split_space cs of [] \<Rightarrow> [[c]] | w # ws \<Rightarrow> (c # w) # ws))"

text \<open>
  The spoken text may be missing (\<open>spoken?.\<close>); then the list of spoken words is empty.
  \<open>spk[i] === word\<close> is false beyond the end of \<open>spk\<close>.
\<close>

definition getWordMatchMap :: "string \<Rightarrow> string option \<Rightarrow> (string \<times> bool) list" where
  "getWordMatchMap expected spoken =
     (let exp = split_space (toLowerCase expected);
          spk = (case spoken of None \<Rightarrow> [] | Some s \<Rightarrow> split_space (toLowerCase s))
      in map (\<lambda>(word, i). (word, i < length spk \<and> spk ! i = word))
           (zip exp [0..<length exp]))"


section \<open>Invariants of the segmenter\<close>

text \<open>
  A text with one run: after its leading terminal characters no terminal character
  follows. The accumulated text of the segmenter always has this shape.
\<close>

definition one_run :: "string \<Rightarrow> bool" where
  "one_run s \<longleftrightarrow> (\<forall>c \<in> set (dropWhile terminal s). \<not> terminal c)"

text \<open>All indices the state holds: those of the sentences, then those of the accumulator.\<close>

definition used :: "seg_state \<Rightarrow> nat list" where
  "used st = concat (map itemIndices (allSentences st)) @ currentItemIndices st"

definition seg_inv :: "nat \<Rightarrow> seg_state \<Rightarrow> bool" where
  "seg_inv k st \<longleftrightarrow>
     distinct (used st) \<and> (\<forall>i \<in> set (used st). i < k) \<and>
     sorted_wrt (<) (currentItemIndices st) \<and>
     (\<forall>s \<in> set (allSentences st). itemIndices s \<noteq> [] \<and> sorted_wrt (<) (itemIndices s)) \<and>
     (currentItemIndices st = [] \<longrightarrow> fullText st = []) \<and>
     one_run (fullText st) \<and> (fullText st = [] \<or> \<not> terminal (last (fullText st)))"


section \<open>Example pages\<close>

text \<open>
  A page of height 800 with a heading of height 20 and two body lines of height 10; a
  page whose items mostly have height 0, as rotated text has; an item that holds two
  sentences.
\<close>

definition example_page :: "item list" where
  "example_page =
     [\<lparr>str = ''Chapter 1'', transform3 = 20, transform5 = 700\<rparr>,
      \<lparr>str = ''The cat sat.'', transform3 = 10, transform5 = 500\<rparr>,
      \<lparr>str = ''It was happy!'', transform3 = 10, transform5 = 480\<rparr>]"

definition example_sentences :: "sentence list" where
  "example_sentences =
     [\<lparr>stext = ''Chapter 1'', isMetadata = True, itemIndices = [0]\<rparr>,
      \<lparr>stext = ''The cat sat.'', isMetadata = False, itemIndices = [1]\<rparr>,
      \<lparr>stext = ''It was happy!'', isMetadata = False, itemIndices = [2]\<rparr>]"

definition rotated_page :: "item list" where
  "rotated_page =
     [\<lparr>str = ''a'', transform3 = 0, transform5 = 500\<rparr>,
      \<lparr>str = ''b'', transform3 = 0, transform5 = 480\<rparr>,
      \<lparr>str = ''c'', transform3 = 10, transform5 = 400\<rparr>]"

definition two_in_one :: item where
  "two_in_one = \<lparr>str = ''Hi. Bye.'', transform3 = 10, transform5 = 500\<rparr>"

section \<open>Invariants of the classification\<close>

text \<open>
  A solid text: blank, or not blank after its leading terminal characters. The
  accumulated text of the segmenter is always solid, so a flush of a text that is not
  blank pushes a sentence.
\<close>

definition solid :: "string \<Rightarrow> bool" where
  "solid ft \<longleftrightarrow> trim ft = [] \<or> trim (dropWhile terminal ft) \<noteq> []"

text \<open>
  An item is marked when it is not empty and classified as metadata, plain when it is
  not empty and not classified as metadata. After \<open>k\<close> items, every metadata sentence
  holds exactly one marked item, every other sentence and the accumulator hold plain
  items only, every marked item has its metadata sentence, and every plain item is in
  the accumulator or in a sentence that is not metadata.
\<close>

definition marked :: "real \<Rightarrow> real \<Rightarrow> real \<Rightarrow> item \<Rightarrow> bool" where
  "marked f h t it \<longleftrightarrow> str it \<noteq> [] \<and> classify f h t it"

definition plain :: "real \<Rightarrow> real \<Rightarrow> real \<Rightarrow> item \<Rightarrow> bool" where
  "plain f h t it \<longleftrightarrow> str it \<noteq> [] \<and> \<not> classify f h t it"

definition cls_inv ::
  "real \<Rightarrow> real \<Rightarrow> real \<Rightarrow> item list \<Rightarrow> nat \<Rightarrow> seg_state \<Rightarrow> bool" where
  "cls_inv f h t items k st \<longleftrightarrow>
     (\<forall>s \<in> set (allSentences st).
        if isMetadata s
        then \<exists>i < k. itemIndices s = [i] \<and> marked f h t (items ! i)
        else \<forall>i \<in> set (itemIndices s). i < k \<and> plain f h t (items ! i)) \<and>
     (\<forall>i \<in> set (currentItemIndices st). i < k \<and> plain f h t (items ! i)) \<and>
     (\<forall>i < k. marked f h t (items ! i) \<longrightarrow>
        (\<exists>s \<in> set (allSentences st). isMetadata s \<and> itemIndices s = [i])) \<and>
     (\<forall>i < k. plain f h t (items ! i) \<longrightarrow>
        i \<in> set (currentItemIndices st) \<or>
        (\<exists>s \<in> set (allSentences st). \<not> isMetadata s \<and> i \<in> set (itemIndices s)))"

text \<open>
  A page whose third item has the height of the double nearest to 15.600000000000001,
  the value of \<open>12 * 1.3\<close> in doubles, and an item that is blank but not empty.
\<close>

definition boundary_page :: "item list" where
  "boundary_page =
     [\<lparr>str = ''a'', transform3 = 12, transform5 = 500\<rparr>,
      \<lparr>str = ''b'', transform3 = 12, transform5 = 480\<rparr>,
      \<lparr>str = ''c'', transform3 = 2195504818343117 / 2 ^ 47, transform5 = 400\<rparr>]"

definition blank_item :: item where
  "blank_item = \<lparr>str = '' '', transform3 = 10, transform5 = 500\<rparr>"

section \<open>Example states of the reader\<close>

text \<open>
  The reader on the sentences of the example page, playing, at the last sentence and at
  the heading; and a reader, playing, on a page that holds two metadata sentences only.
\<close>

definition last_sentence_reader :: reader where
  "last_sentence_reader =
     \<lparr>localSentences = example_sentences, activeSentenceIndex = 2, parentIsReading = True\<rparr>"

definition heading_reader :: reader where
  "heading_reader =
     \<lparr>localSentences = example_sentences, activeSentenceIndex = 0, parentIsReading = True\<rparr>"

definition front_matter_reader :: reader where
  "front_matter_reader =
     \<lparr>localSentences =
        [\<lparr>stext = ''Chapter 1'', isMetadata = True, itemIndices = [0]\<rparr>,
         \<lparr>stext = ''1.'', isMetadata = True, itemIndices = [1]\<rparr>],
      activeSentenceIndex = 0, parentIsReading = True\<rparr>"

section \<open>Word normalisation of the live feedback (DocumentReader, getWordFeedback)\<close>

text \<open>
  The other word comparison of the front end normalises both texts with
  \<^verbatim>\<open>.toLowerCase().replace(/[^\w\s]/g, '').split(/\s+/)\<close>: lower case, every
  character that is neither a word character nor white space removed, split at runs of
  white space.
\<close>

definition word_char :: "char \<Rightarrow> bool" where
  "word_char c \<longleftrightarrow> alnum c \<or> c = CHR ''_''"

function split_spaces :: "string \<Rightarrow> string list" where
  "split_spaces [] = [[]]"
| "split_spaces (c # cs) =
     (if is_space c then [] # split_spaces (dropWhile is_space cs)
      else (case split_spaces cs of [] \<Rightarrow> [[c]] | w # ws \<Rightarrow> (c # w) # ws))"
  by pat_completeness auto
termination
proof (relation "measure length")
  fix c :: char and cs
  have "length (dropWhile is_space cs) \<le> length cs" by (rule length_dropWhile_le)
  then show "(dropWhile is_space cs, c # cs) \<in> measure length" by simp
qed simp_all

definition normalize_words :: "string \<Rightarrow> string list" where
  "normalize_words s =
     split_spaces (filter (\<lambda>c. word_char c \<or> is_space c) (toLowerCase s))"

section \<open>Reading the encoded buffer\<close>

text \<open>
  The little-endian getters of \<open>DataView\<close>, for offsets inside the buffer, and the byte
  sequences the setters write: a 16-bit and a 32-bit value, the character codes of a
  string, the two bytes of a sample, and the 44 bytes of the header in the order
  \<open>encodeWav\<close> writes them.
\<close>

definition getUint16 :: "byte list \<Rightarrow> nat \<Rightarrow> nat" where
  "getUint16 view byteOffset =
     unat (view ! byteOffset) + 2 ^ 8 * unat (view ! (byteOffset + 1))"

definition getUint32 :: "byte list \<Rightarrow> nat \<Rightarrow> nat" where
  "getUint32 view byteOffset =
     unat (view ! byteOffset) + 2 ^ 8 * unat (view ! (byteOffset + 1)) +
     2 ^ 16 * unat (view ! (byteOffset + 2)) + 2 ^ 24 * unat (view ! (byteOffset + 3))"

definition getInt16 :: "byte list \<Rightarrow> nat \<Rightarrow> int" where
  "getInt16 view byteOffset = sint (of_nat (getUint16 view byteOffset) :: 16 word)"

definition le16 :: "nat \<Rightarrow> byte list" where
  "le16 v = [of_nat v, of_nat (v div 2 ^ 8)]"

definition le32 :: "nat \<Rightarrow> byte list" where
  "le32 v = [of_nat v, of_nat (v div 2 ^ 8), of_nat (v div 2 ^ 16), of_nat (v div 2 ^ 24)]"

definition ascii :: "string \<Rightarrow> byte list" where
  "ascii s = map (\<lambda>c. of_nat (of_char c)) s"

definition pcm_bytes :: "number \<Rightarrow> byte list" where
  "pcm_bytes x =
     [ucast (ToInt16 (scale_sample (clamp_sample x))),
      ucast (drop_bit 8 (ToInt16 (scale_sample (clamp_sample x))))]"

definition wav_header :: "nat \<Rightarrow> nat \<Rightarrow> byte list" where
  "wav_header n rate =
     ascii ''RIFF'' @ le32 (36 + n * 2) @ ascii ''WAVE'' @ ascii ''fmt '' @ le32 16 @
     le16 1 @ le16 1 @ le32 rate @ le32 (rate * 2) @ le16 2 @ le16 16 @
     ascii ''data'' @ le32 (n * 2)"

text \<open>A decoded stereo recording at 48 kHz, and a recorded blob.\<close>

definition stereo_buffer :: audio_buffer where
  "stereo_buffer =
     \<lparr>sampleRate = 48000,
      channelData = [[Finite (3 / 2), Finite (- 2), Finite (1 / 2), NaN],
                     [NaN, Finite 0, PosInfinity, Finite 1]]\<rparr>"

definition recorded_blob :: blob where
  "recorded_blob = \<lparr>blob_data = [26, 69, 223, 163], blob_type = ''audio/webm''\<rparr>"

section \<open>Verdict tiers\<close>




section \<open>The index lists of the sentences\<close>

lemma match_sentences_all_plain:
  assumes "\<forall>x \<in> set s. \<not> terminal x" "s \<noteq> []"
  shows "match_sentences s = [s]"
proof -
  obtain c cs where s: "s = c # cs" using assms(2) by (cases s) auto
  have t: "takeWhile (\<lambda>x. \<not> terminal x) cs = cs" "dropWhile (\<lambda>x. \<not> terminal x) cs = []"
    using assms(1) s by (auto simp: takeWhile_eq_all_conv)
  show ?thesis using assms(1) s by (simp add: Let_def t)
qed

lemma one_run_match: "one_run s \<Longrightarrow> length (match_sentences s) \<le> 1"
proof (induction s)
  case Nil
  then show ?case by simp
next
  case (Cons c cs)
  show ?case
  proof (cases "terminal c")
    case True
    with Cons show ?thesis by (simp add: one_run_def)
  next
    case False
    with Cons.prems have "\<forall>x \<in> set (c # cs). \<not> terminal x"
      by (simp add: one_run_def)
    then have "match_sentences (c # cs) = [c # cs]"
      by (rule match_sentences_all_plain) simp
    then show ?thesis by simp
  qed
qed

lemma match_sentences_Nil: "match_sentences s = [] \<Longrightarrow> \<forall>c \<in> set s. terminal c"
proof (induction s)
  case Nil
  then show ?case by simp
next
  case (Cons c cs)
  then show ?case by (cases "terminal c") (simp_all add: Let_def)
qed

lemma one_run_append:
  assumes "one_run s" "s = [] \<or> \<not> terminal (last s)" "\<forall>c \<in> set x. \<not> terminal c"
  shows "one_run (s @ x)"
proof (cases "s = []")
  case True
  then show ?thesis using assms(3) by (auto simp: one_run_def dest: set_dropWhileD)
next
  case False
  with assms(2) have "last s \<in> set s" "\<not> terminal (last s)" by auto
  then have "dropWhile terminal (s @ x) = dropWhile terminal s @ x"
    by (intro dropWhile_append1) auto
  then show ?thesis using assms(1,3) by (auto simp: one_run_def)
qed

lemma match_one_run:
  "s \<noteq> [] \<Longrightarrow> \<not> terminal (last s) \<Longrightarrow> length (match_sentences s) \<le> 1 \<Longrightarrow> one_run s"
proof (induction s)
  case Nil
  then show ?case by simp
next
  case (Cons c cs)
  show ?case
  proof (cases "terminal c")
    case True
    with Cons.prems(2) have ne: "cs \<noteq> []" by auto
    then have "\<not> terminal (last cs)" using Cons.prems(2) by simp
    moreover have "length (match_sentences cs) \<le> 1" using Cons.prems(3) True by simp
    ultimately have "one_run cs" using ne by (intro Cons.IH)
    then show ?thesis using True by (simp add: one_run_def)
  next
    case False
    define rest where "rest = dropWhile (\<lambda>x. \<not> terminal x) (c # cs)"
    have "match_sentences (dropWhile terminal rest) = []"
      using Cons.prems(3) False by (simp add: Let_def rest_def)
    then have r': "\<forall>x \<in> set (dropWhile terminal rest). terminal x"
      by (rule match_sentences_Nil)
    have all: "terminal x" if "x \<in> set rest" for x
    proof -
      from that have "x \<in> set (takeWhile terminal rest @ dropWhile terminal rest)"
        by simp
      then have "x \<in> set (takeWhile terminal rest) \<or> x \<in> set (dropWhile terminal rest)"
        unfolding set_append Un_iff .
      then show ?thesis using r' by (auto dest: set_takeWhileD)
    qed
    have "rest = []"
    proof (rule ccontr)
      assume ne: "rest \<noteq> []"
      have "last (takeWhile (\<lambda>x. \<not> terminal x) (c # cs) @ rest) = last rest"
        using ne by (rule last_appendR)
      then have "last (c # cs) = last rest"
        unfolding rest_def takeWhile_dropWhile_id .
      moreover have "terminal (last rest)" using ne by (intro all last_in_set)
      ultimately show False using Cons.prems(2) by simp
    qed
    then have "\<forall>x \<in> set (c # cs). \<not> terminal x"
      unfolding rest_def dropWhile_eq_Nil_conv .
    then show ?thesis by (auto simp: one_run_def dest: set_dropWhileD)
  qed
qed


lemma trim_Nil [simp]: "trim [] = []"
  by (simp add: trim_def)

lemma raw_pieces_one_run:
  assumes "one_run ft"
  shows "\<exists>p. raw_pieces ft = [p]"
proof (cases "match_sentences ft")
  case Nil
  then show ?thesis by (simp add: raw_pieces_def)
next
  case (Cons m ms)
  with one_run_match [OF assms] have "ms = []" by simp
  with Cons show ?thesis by (simp add: raw_pieces_def)
qed

lemma flush_pieces_one_run:
  assumes "one_run ft"
  shows "flush_pieces ft idxs = [] \<or>
         (\<exists>t. flush_pieces ft idxs = [\<lparr>stext = t, isMetadata = False, itemIndices = idxs\<rparr>])"
proof -
  from raw_pieces_one_run [OF assms] obtain p where "raw_pieces ft = [p]" ..
  then show ?thesis by (simp add: flush_pieces_def)
qed

lemma seg_inv_init: "seg_inv 0 seg_init"
  by (simp add: seg_inv_def seg_init_def used_def one_run_def)

lemma seg_inv_mono: "seg_inv k st \<Longrightarrow> seg_inv (Suc k) st"
  by (auto simp: seg_inv_def less_Suc_eq)

lemma flush_inv:
  assumes "seg_inv k st"
  shows "seg_inv k (flush st)"
proof (cases "trim (fullText st) = []")
  case True
  then show ?thesis using assms by (simp add: flush_def)
next
  case False
  then have "fullText st \<noteq> []" by auto
  with assms have cur: "currentItemIndices st \<noteq> []" by (auto simp: seg_inv_def)
  from assms have "one_run (fullText st)" by (simp add: seg_inv_def)
  from flush_pieces_one_run [OF this, of "currentItemIndices st"]
  show ?thesis
  proof
    assume "flush_pieces (fullText st) (currentItemIndices st) = []"
    then show ?thesis using assms False
      by (simp add: flush_def seg_inv_def used_def one_run_def)
  next
    assume "\<exists>t. flush_pieces (fullText st) (currentItemIndices st) =
      [\<lparr>stext = t, isMetadata = False, itemIndices = currentItemIndices st\<rparr>]"
    then show ?thesis using assms False cur
      by (auto simp: flush_def seg_inv_def used_def one_run_def)
  qed
qed

lemma metadata_step_inv:
  assumes "seg_inv k st"
  shows "seg_inv (Suc k) (metadata_step st it k)"
proof -
  from flush_inv [OF assms] have "seg_inv k (flush st)" .
  then show ?thesis
    by (auto simp: metadata_step_def Let_def seg_inv_def used_def less_Suc_eq)
qed

lemma sorted_wrt_snoc_less:
  "sorted_wrt (<) xs \<Longrightarrow> \<forall>i \<in> set xs. i < (k::nat) \<Longrightarrow> sorted_wrt (<) (xs @ [k])"
  by (simp add: sorted_wrt_append)

lemma body_step_inv:
  assumes "seg_inv k st"
  shows "seg_inv (Suc k) (body_step st it k)"
proof -
  define ft where "ft = fullText st @ str it @ '' ''"
  define idxs where "idxs = currentItemIndices st @ [k]"
  have space: "\<not> terminal CHR '' ''" by (simp add: terminal_def)
  have ft_ne: "ft \<noteq> []" and ft_last: "\<not> terminal (last ft)"
    using space by (simp_all add: ft_def)
  from assms have srt: "sorted_wrt (<) idxs"
    unfolding idxs_def by (intro sorted_wrt_snoc_less) (auto simp: seg_inv_def used_def)
  have fresh: "k \<notin> set (used st)" using assms by (auto simp: seg_inv_def)
  show ?thesis
  proof (cases "has_terminal (str it) \<and>
            (length (raw_pieces ft) > 1 \<or> (length (raw_pieces ft) = 1 \<and> ends_terminal (trim ft)))")
    case True
    then have "body_step st it k =
      \<lparr>allSentences = allSentences st @ [\<lparr>stext = trim ft, isMetadata = False, itemIndices = idxs\<rparr>],
       fullText = [], currentItemIndices = []\<rparr>"
      by (simp add: body_step_def Let_def ft_def idxs_def)
    then show ?thesis using assms srt fresh
      by (auto simp: seg_inv_def used_def one_run_def idxs_def less_Suc_eq)
  next
    case False
    then have eq: "body_step st it k =
      \<lparr>allSentences = allSentences st, fullText = ft, currentItemIndices = idxs\<rparr>"
      by (auto simp add: body_step_def Let_def ft_def idxs_def)
    have "one_run ft"
    proof (cases "has_terminal (str it)")
      case True
      with False have "length (raw_pieces ft) \<le> 1" by auto
      then have "length (match_sentences ft) \<le> 1"
        by (cases "match_sentences ft") (simp_all add: raw_pieces_def)
      with ft_ne ft_last show ?thesis by (intro match_one_run)
    next
      case False
      then have "\<forall>c \<in> set (str it @ '' ''). \<not> terminal c"
        using space by (auto simp: has_terminal_def list_ex_iff)
      moreover from assms have "one_run (fullText st)"
        "fullText st = [] \<or> \<not> terminal (last (fullText st))"
        by (simp_all add: seg_inv_def)
      ultimately show ?thesis unfolding ft_def by (intro one_run_append)
    qed
    then show ?thesis using assms srt fresh ft_last unfolding eq
      by (auto simp: seg_inv_def used_def idxs_def less_Suc_eq)
  qed
qed

lemma segment_item_inv:
  "seg_inv k st \<Longrightarrow> seg_inv (Suc k) (segment_item a b c st (it, k))"
  by (simp add: segment_item_def seg_inv_mono metadata_step_inv body_step_inv)

lemma foldl_segment_inv:
  "seg_inv (length items) (foldl (segment_item a b c) seg_init (zip items [0..<length items]))"
proof (induction items rule: rev_induct)
  case Nil
  then show ?case by (simp add: seg_inv_init)
next
  case (snoc x xs)
  then show ?case by (simp add: segment_item_inv)
qed

lemma distinct_concat_disjoint:
  assumes "distinct (concat xss)" "i < length xss" "j < length xss" "i \<noteq> j"
  shows "set (xss ! i) \<inter> set (xss ! j) = {}"
  using assms
proof (induction xss arbitrary: i j)
  case Nil
  then show ?case by simp
next
  case (Cons xs xss)
  show ?case
  proof (cases i)
    case 0
    with Cons.prems obtain j' where "j = Suc j'" "j' < length xss" by (cases j) auto
    with 0 Cons.prems(1) show ?thesis by fastforce
  next
    case (Suc i')
    show ?thesis
    proof (cases j)
      case 0
      with Suc Cons.prems show ?thesis by fastforce
    next
      case (Suc j')
      with \<open>i = Suc i'\<close> Cons.prems Cons.IH [of i' j'] show ?thesis by simp
    qed
  qed
qed

text \<open>
  Claim C1. Whatever the page height and the items of the page, every sentence the
  segmenter produces has a list of item indices that is not empty and strictly
  increasing, and the lists of two different sentences of the result share no index.
\<close>

theorem segmenter_indices:
  "(\<forall>s \<in> set (onPageLoadSuccess pageHeight items).
      itemIndices s \<noteq> [] \<and> sorted_wrt (<) (itemIndices s)) \<and>
   (\<forall>i < length (onPageLoadSuccess pageHeight items).
      \<forall>j < length (onPageLoadSuccess pageHeight items). i \<noteq> j \<longrightarrow>
        set (itemIndices (onPageLoadSuccess pageHeight items ! i)) \<inter>
        set (itemIndices (onPageLoadSuccess pageHeight items ! j)) = {})"
proof (cases "items = []")
  case True
  then show ?thesis by (simp add: onPageLoadSuccess_def)
next
  case False
  define st where "st = segment_items pageHeight items"
  have res: "onPageLoadSuccess pageHeight items = allSentences (flush st)"
    using False by (simp add: onPageLoadSuccess_def st_def)
  have inv: "seg_inv (length items) (flush st)"
    unfolding st_def segment_items_def by (intro flush_inv foldl_segment_inv)
  then have d: "distinct (concat (map itemIndices (allSentences (flush st))))"
    by (simp add: seg_inv_def used_def)
  have "set (itemIndices (allSentences (flush st) ! i)) \<inter>
        set (itemIndices (allSentences (flush st) ! j)) = {}"
    if "i < length (allSentences (flush st))" "j < length (allSentences (flush st))" "i \<noteq> j"
    for i j
    using distinct_concat_disjoint [OF d, of i j] that by simp
  moreover have "\<forall>s \<in> set (allSentences (flush st)).
      itemIndices s \<noteq> [] \<and> sorted_wrt (<) (itemIndices s)"
    using inv by (simp add: seg_inv_def)
  ultimately show ?thesis unfolding res by blast
qed

lemma example_page_sentences: "onPageLoadSuccess 800 example_page = example_sentences"
  by code_simp

theorem segmenter_indices_witness:
  "onPageLoadSuccess 800 example_page ! 1 \<in> set (onPageLoadSuccess 800 example_page) \<and>
   itemIndices (onPageLoadSuccess 800 example_page ! 1) \<noteq> [] \<and>
   sorted_wrt (<) (itemIndices (onPageLoadSuccess 800 example_page ! 1)) \<and>
   (1::nat) < length (onPageLoadSuccess 800 example_page) \<and>
   (2::nat) < length (onPageLoadSuccess 800 example_page) \<and> (1::nat) \<noteq> 2 \<and>
   set (itemIndices (onPageLoadSuccess 800 example_page ! 1)) \<inter>
   set (itemIndices (onPageLoadSuccess 800 example_page ! 2)) = {}"
proof -
  have len: "length (onPageLoadSuccess 800 example_page) = 3"
    by (simp add: example_page_sentences example_sentences_def)
  then have mem: "onPageLoadSuccess 800 example_page ! 1 \<in> set (onPageLoadSuccess 800 example_page)"
    by (intro nth_mem) simp
  from segmenter_indices [of 800 example_page]
  have a: "\<forall>s \<in> set (onPageLoadSuccess 800 example_page).
      itemIndices s \<noteq> [] \<and> sorted_wrt (<) (itemIndices s)"
   and b: "\<forall>i < length (onPageLoadSuccess 800 example_page).
      \<forall>j < length (onPageLoadSuccess 800 example_page). i \<noteq> j \<longrightarrow>
        set (itemIndices (onPageLoadSuccess 800 example_page ! i)) \<inter>
        set (itemIndices (onPageLoadSuccess 800 example_page ! j)) = {}"
    by blast+
  from a mem have "itemIndices (onPageLoadSuccess 800 example_page ! 1) \<noteq> [] \<and>
     sorted_wrt (<) (itemIndices (onPageLoadSuccess 800 example_page ! 1))" by blast
  moreover from b len have "set (itemIndices (onPageLoadSuccess 800 example_page ! 1)) \<inter>
   set (itemIndices (onPageLoadSuccess 800 example_page ! 2)) = {}" by simp
  ultimately show ?thesis using mem len by simp
qed

section \<open>Body fragments with terminal punctuation\<close>

lemma raw_pieces_ne: "raw_pieces ft \<noteq> []"
  by (simp add: raw_pieces_def split: list.split)

text \<open>
  Claim C2, as the code has it. An item that is not empty, not metadata and holds a
  terminal character is appended to the accumulator with a space after it. If the
  accumulated text then has more than one piece, or ends in a terminal character once
  trimmed, the whole trimmed text is pushed as one sentence that is not metadata and
  carries all accumulated indices, and the accumulator is cleared; the text is not split
  into its pieces. Otherwise the accumulation goes on. On the example page the heading
  and the two body lines give three sentences, one per item.
\<close>

theorem body_fragment_flush:
  "(str it \<noteq> [] \<and> \<not> classify f h t it \<and> has_terminal (str it) \<longrightarrow>
      segment_item f h t st (it, idx) =
        (if 1 < length (raw_pieces (fullText st @ str it @ '' '')) \<or>
            ends_terminal (trim (fullText st @ str it @ '' ''))
         then \<lparr>allSentences = allSentences st @
                 [\<lparr>stext = trim (fullText st @ str it @ '' ''), isMetadata = False,
                   itemIndices = currentItemIndices st @ [idx]\<rparr>],
               fullText = [], currentItemIndices = []\<rparr>
         else \<lparr>allSentences = allSentences st, fullText = fullText st @ str it @ '' '',
               currentItemIndices = currentItemIndices st @ [idx]\<rparr>)) \<and>
   onPageLoadSuccess 800 example_page = example_sentences"
proof -
  have "length (raw_pieces ft) = 1 \<or> 1 < length (raw_pieces ft)" for ft
    using raw_pieces_ne [of ft] by (cases "raw_pieces ft") auto
  then show ?thesis
    by (auto simp: segment_item_def body_step_def Let_def example_page_sentences)
qed

theorem body_fragment_flush_witness:
  "str two_in_one \<noteq> [] \<and>
   \<not> classify (footerThreshold 800) (headerThreshold 800) (headingThreshold [two_in_one])
     two_in_one \<and>
   has_terminal (str two_in_one) \<and>
   segment_item (footerThreshold 800) (headerThreshold 800) (headingThreshold [two_in_one])
      seg_init (two_in_one, 0) =
     \<lparr>allSentences = [\<lparr>stext = ''Hi. Bye.'', isMetadata = False, itemIndices = [0]\<rparr>],
      fullText = [], currentItemIndices = []\<rparr>"
proof -
  have h: "str two_in_one \<noteq> [] \<and>
     \<not> classify (footerThreshold 800) (headerThreshold 800) (headingThreshold [two_in_one])
     two_in_one \<and>
     has_terminal (str two_in_one)"
    by code_simp
  have g: "1 < length (raw_pieces (fullText seg_init @ str two_in_one @ '' ''))"
    by code_simp
  have t: "trim (fullText seg_init @ str two_in_one @ '' '') = ''Hi. Bye.''"
    by code_simp
  from body_fragment_flush [of two_in_one "footerThreshold 800" "headerThreshold 800"
      "headingThreshold [two_in_one]" seg_init 0] h
  have "segment_item (footerThreshold 800) (headerThreshold 800) (headingThreshold [two_in_one])
      seg_init (two_in_one, 0) =
        (if 1 < length (raw_pieces (fullText seg_init @ str two_in_one @ '' '')) \<or>
            ends_terminal (trim (fullText seg_init @ str two_in_one @ '' ''))
         then \<lparr>allSentences = allSentences seg_init @
                 [\<lparr>stext = trim (fullText seg_init @ str two_in_one @ '' ''), isMetadata = False,
                   itemIndices = currentItemIndices seg_init @ [0]\<rparr>],
               fullText = [], currentItemIndices = []\<rparr>
         else \<lparr>allSentences = allSentences seg_init, fullText = fullText seg_init @ str two_in_one @ '' '',
               currentItemIndices = currentItemIndices seg_init @ [0]\<rparr>)"
    by blast
  with g t have "segment_item (footerThreshold 800) (headerThreshold 800) (headingThreshold [two_in_one])
      seg_init (two_in_one, 0) =
     \<lparr>allSentences = [\<lparr>stext = ''Hi. Bye.'', isMetadata = False, itemIndices = [0]\<rparr>],
      fullText = [], currentItemIndices = []\<rparr>"
    by (simp add: seg_init_def)
  with h show ?thesis by blast
qed

text \<open>
  Claim C2 as stated fails: the item \<open>Hi. Bye.\<close> is a body item with terminal characters,
  splitting its accumulated text gives the two pieces \<open>Hi.\<close> and \<open>Bye.\<close>, and the segmenter
  returns the single sentence \<open>Hi. Bye.\<close>.
\<close>

theorem body_fragment_split_counterexample:
  "has_terminal (str two_in_one) \<and>
   \<not> classify (footerThreshold 800) (headerThreshold 800) (headingThreshold [two_in_one])
     two_in_one \<and>
   map stext (flush_pieces (str two_in_one @ '' '') [0]) = [''Hi.'', ''Bye.''] \<and>
   onPageLoadSuccess 800 [two_in_one] =
     [\<lparr>stext = ''Hi. Bye.'', isMetadata = False, itemIndices = [0]\<rparr>] \<and>
   onPageLoadSuccess 800 [two_in_one] \<noteq> flush_pieces (str two_in_one @ '' '') [0]"
  by code_simp

section \<open>The classification of the items\<close>

lemma trim_eq_Nil_iff: "trim s = [] \<longleftrightarrow> (\<forall>c \<in> set s. is_space c)"
proof -
  have "dropWhile is_space s = [] \<longleftrightarrow> (\<forall>c \<in> set s. is_space c)"
    by (simp add: dropWhile_eq_Nil_conv)
  moreover have "trim s = [] \<longleftrightarrow> dropWhile is_space s = []"
  proof
    assume "trim s = []"
    then have "\<forall>c \<in> set (dropWhile is_space s). is_space c"
      by (simp add: trim_def dropWhile_eq_Nil_conv)
    show "dropWhile is_space s = []"
    proof (rule ccontr)
      assume ne: "dropWhile is_space s \<noteq> []"
      then have "\<not> is_space (hd (dropWhile is_space s))" by (rule hd_dropWhile)
      moreover have "hd (dropWhile is_space s) \<in> set (dropWhile is_space s)"
        using ne by (rule hd_in_set)
      ultimately show False using \<open>\<forall>c \<in> set (dropWhile is_space s). is_space c\<close> by blast
    qed
  next
    assume e: "dropWhile is_space s = []"
    show "trim s = []" unfolding trim_def e by simp
  qed
  ultimately show ?thesis by simp
qed

lemma terminal_not_space: "terminal c \<Longrightarrow> \<not> is_space c"
  by (auto simp: terminal_def is_space_def)

lemma trim_stops_then_blank:
  assumes "t \<noteq> []" "\<forall>c \<in> set t. terminal c" "\<forall>c \<in> set n. is_space c"
  shows "trim (t @ n) = t"
proof -
  from assms(1,2) have h: "\<not> is_space (hd t)" "\<not> is_space (last t)"
    by (simp_all add: terminal_not_space)
  from assms(1) h(1) have a: "dropWhile is_space (t @ n) = t @ n"
    by (cases t) simp_all
  have "dropWhile is_space (rev n @ rev t) = dropWhile is_space (rev t)"
    using assms(3) by (intro dropWhile_append2) simp
  also have "\<dots> = rev t" using assms(1) h(2) by (cases "rev t") (auto simp: last_rev)
  finally show ?thesis by (simp add: trim_def a)
qed

lemma solid_Nil: "solid []"
  by (simp add: solid_def)

lemma dropWhile_none: "\<forall>c \<in> set x. \<not> P c \<Longrightarrow> dropWhile P x = x"
  by (cases x) simp_all

lemma match_sentences_stops: "match_sentences (dropWhile terminal s) = match_sentences s"
  by (induction s) simp_all

lemma flush_pieces_solid:
  assumes "one_run ft" "solid ft" "trim ft \<noteq> []"
  shows "flush_pieces ft idxs \<noteq> []"
proof -
  define n where "n = dropWhile terminal ft"
  from assms(2,3) have t: "trim n \<noteq> []" by (simp add: solid_def n_def)
  then have ne: "n \<noteq> []" by auto
  from assms(1) have "\<forall>c \<in> set n. \<not> terminal c" by (simp add: one_run_def n_def)
  then have "match_sentences n = [n]" using ne by (rule match_sentences_all_plain)
  then have "match_sentences ft = [n]" by (simp add: n_def match_sentences_stops)
  then have "raw_pieces ft = [n]" by (simp add: raw_pieces_def)
  then show ?thesis using t by (simp add: flush_pieces_def)
qed

lemma flush_solid: "solid (fullText st) \<Longrightarrow> solid (fullText (flush st))"
  by (simp add: flush_def solid_Nil)

lemma metadata_step_solid:
  "solid (fullText st) \<Longrightarrow> solid (fullText (metadata_step st it k))"
  using flush_solid [of st] by (simp add: metadata_step_def Let_def)

lemma solid_append_plain:
  assumes "solid ft" "ft = [] \<or> \<not> terminal (last ft)" "\<forall>c \<in> set x. \<not> terminal c"
  shows "solid (ft @ x)"
proof (cases "ft = []")
  case True
  with assms(3) have "dropWhile terminal (ft @ x) = ft @ x" by (simp add: dropWhile_none)
  then show ?thesis by (simp add: solid_def)
next
  case False
  with assms(2) have "last ft \<in> set ft" "\<not> terminal (last ft)" by auto
  then have d: "dropWhile terminal (ft @ x) = dropWhile terminal ft @ x"
    by (intro dropWhile_append1) auto
  show ?thesis
  proof (cases "trim (ft @ x) = []")
    case True
    then show ?thesis by (simp add: solid_def)
  next
    case False
    then obtain c where c: "c \<in> set ft \<union> set x" "\<not> is_space c"
      by (auto simp: trim_eq_Nil_iff)
    have "\<exists>c \<in> set (dropWhile terminal ft @ x). \<not> is_space c"
    proof (cases "c \<in> set x")
      case True
      with c(2) show ?thesis by auto
    next
      case False
      with c have "trim ft \<noteq> []" by (auto simp: trim_eq_Nil_iff)
      with assms(1) have "trim (dropWhile terminal ft) \<noteq> []" by (simp add: solid_def)
      then show ?thesis by (auto simp: trim_eq_Nil_iff)
    qed
    then have "trim (dropWhile terminal (ft @ x)) \<noteq> []"
      unfolding d by (simp only: trim_eq_Nil_iff) blast
    then show ?thesis by (simp add: solid_def)
  qed
qed

lemma solid_unfinished:
  assumes "one_run ft" "\<exists>c \<in> set ft. terminal c" "\<not> ends_terminal (trim ft)"
  shows "solid ft"
proof (rule ccontr)
  assume "\<not> solid ft"
  then have blank: "\<forall>c \<in> set (dropWhile terminal ft). is_space c"
    by (simp add: solid_def trim_eq_Nil_iff)
  define t where "t = takeWhile terminal ft"
  define n where "n = dropWhile terminal ft"
  have ft: "ft = t @ n" by (simp add: t_def n_def)
  have tt: "\<forall>c \<in> set t. terminal c" by (auto simp: t_def dest: set_takeWhileD)
  from assms(1) have "\<forall>c \<in> set n. \<not> terminal c" by (simp add: one_run_def n_def)
  with assms(2) ft have "t \<noteq> []" by auto
  with tt blank have "trim (t @ n) = t" unfolding n_def by (intro trim_stops_then_blank)
  moreover have "ends_terminal t" using \<open>t \<noteq> []\<close> tt by (simp add: ends_terminal_def)
  ultimately show False using assms(3) ft by simp
qed

lemma body_step_cases:
  "body_step st it k =
     \<lparr>allSentences = allSentences st @
        [\<lparr>stext = trim (fullText st @ str it @ '' ''), isMetadata = False,
          itemIndices = currentItemIndices st @ [k]\<rparr>],
      fullText = [], currentItemIndices = []\<rparr> \<or>
   body_step st it k =
     \<lparr>allSentences = allSentences st, fullText = fullText st @ str it @ '' '',
      currentItemIndices = currentItemIndices st @ [k]\<rparr> \<and>
   (has_terminal (str it) \<longrightarrow> \<not> ends_terminal (trim (fullText st @ str it @ '' '')))"
proof -
  have "length (raw_pieces ft) = 1 \<or> 1 < length (raw_pieces ft)" for ft
    using raw_pieces_ne [of ft] by (cases "raw_pieces ft") auto
  then show ?thesis by (auto simp: body_step_def Let_def)
qed

lemma body_step_solid:
  assumes "seg_inv k st" "solid (fullText st)"
  shows "solid (fullText (body_step st it k))"
  using body_step_cases [of st it k]
proof (elim disjE conjE)
  assume "body_step st it k =
     \<lparr>allSentences = allSentences st @
        [\<lparr>stext = trim (fullText st @ str it @ '' ''), isMetadata = False,
          itemIndices = currentItemIndices st @ [k]\<rparr>],
      fullText = [], currentItemIndices = []\<rparr>"
  then show ?thesis by (simp add: solid_Nil)
next
  define ft where "ft = fullText st @ str it @ '' ''"
  assume eq: "body_step st it k =
     \<lparr>allSentences = allSentences st, fullText = fullText st @ str it @ '' '',
      currentItemIndices = currentItemIndices st @ [k]\<rparr>"
    and g: "has_terminal (str it) \<longrightarrow> \<not> ends_terminal (trim (fullText st @ str it @ '' ''))"
  have space: "\<not> terminal CHR '' ''" by (simp add: terminal_def)
  have "solid ft"
  proof (cases "has_terminal (str it)")
    case True
    from body_step_inv [OF assms(1), of it] have "one_run (fullText (body_step st it k))"
      by (simp add: seg_inv_def)
    then have "one_run ft" by (simp add: eq ft_def)
    moreover from True have "\<exists>c \<in> set ft. terminal c"
      by (auto simp: has_terminal_def list_ex_iff ft_def)
    moreover from True g have "\<not> ends_terminal (trim ft)" by (simp add: ft_def)
    ultimately show ?thesis by (rule solid_unfinished)
  next
    case False
    then have "\<forall>c \<in> set (str it @ '' ''). \<not> terminal c"
      using space by (auto simp: has_terminal_def list_ex_iff)
    moreover from assms(1) have "fullText st = [] \<or> \<not> terminal (last (fullText st))"
      by (simp add: seg_inv_def)
    ultimately show ?thesis unfolding ft_def using assms(2) by (intro solid_append_plain)
  qed
  then show ?thesis by (simp add: eq ft_def)
qed

lemma segment_item_solid:
  "seg_inv k st \<Longrightarrow> solid (fullText st) \<Longrightarrow>
   solid (fullText (segment_item f h t st (it, k)))"
  by (simp add: segment_item_def metadata_step_solid body_step_solid)


lemma flush_pieces_fields:
  "s \<in> set (flush_pieces ft idxs) \<Longrightarrow> \<not> isMetadata s \<and> itemIndices s = idxs"
  by (auto simp: flush_pieces_def)

lemma cls_inv_init: "cls_inv f h t items 0 seg_init"
  by (simp add: cls_inv_def seg_init_def)

lemma cls_inv_flush:
  assumes "cls_inv f h t items k st" "seg_inv k st" "solid (fullText st)"
  shows "cls_inv f h t items k (flush st)"
proof (cases "trim (fullText st) = []")
  case True
  with assms show ?thesis by (simp add: flush_def)
next
  case False
  define ps where "ps = flush_pieces (fullText st) (currentItemIndices st)"
  have new: "\<not> isMetadata s \<and> itemIndices s = currentItemIndices st" if "s \<in> set ps" for s
    using that unfolding ps_def by (rule flush_pieces_fields)
  from assms(2) have "one_run (fullText st)" by (simp add: seg_inv_def)
  then have "ps \<noteq> []" unfolding ps_def using assms(3) False by (rule flush_pieces_solid)
  then obtain p where p: "p \<in> set ps" by (cases ps) auto
  from assms(1) have old: "\<forall>s \<in> set (allSentences st).
        if isMetadata s
        then \<exists>i < k. itemIndices s = [i] \<and> marked f h t (items ! i)
        else \<forall>i \<in> set (itemIndices s). i < k \<and> plain f h t (items ! i)"
    and cur: "\<forall>i \<in> set (currentItemIndices st). i < k \<and> plain f h t (items ! i)"
    and all: "\<forall>i < k. marked f h t (items ! i) \<longrightarrow>
        (\<exists>s \<in> set (allSentences st). isMetadata s \<and> itemIndices s = [i])"
    and cov: "\<forall>i < k. plain f h t (items ! i) \<longrightarrow>
        i \<in> set (currentItemIndices st) \<or>
        (\<exists>s \<in> set (allSentences st). \<not> isMetadata s \<and> i \<in> set (itemIndices s))"
    by (simp_all add: cls_inv_def)
  have "\<forall>s \<in> set (allSentences st @ ps).
        if isMetadata s
        then \<exists>i < k. itemIndices s = [i] \<and> marked f h t (items ! i)
        else \<forall>i \<in> set (itemIndices s). i < k \<and> plain f h t (items ! i)"
    using old cur new by auto
  moreover have "\<forall>i < k. marked f h t (items ! i) \<longrightarrow>
        (\<exists>s \<in> set (allSentences st @ ps). isMetadata s \<and> itemIndices s = [i])"
    using all by auto
  moreover have "\<forall>i < k. plain f h t (items ! i) \<longrightarrow>
        (\<exists>s \<in> set (allSentences st @ ps). \<not> isMetadata s \<and> i \<in> set (itemIndices s))"
  proof (intro allI impI)
    fix i assume "i < k" "plain f h t (items ! i)"
    with cov have "i \<in> set (currentItemIndices st) \<or>
        (\<exists>s \<in> set (allSentences st). \<not> isMetadata s \<and> i \<in> set (itemIndices s))" by blast
    then show "\<exists>s \<in> set (allSentences st @ ps). \<not> isMetadata s \<and> i \<in> set (itemIndices s)"
    proof
      assume "i \<in> set (currentItemIndices st)"
      with new [OF p] p show ?thesis by auto
    next
      assume "\<exists>s \<in> set (allSentences st). \<not> isMetadata s \<and> i \<in> set (itemIndices s)"
      then show ?thesis by auto
    qed
  qed
  ultimately show ?thesis using False by (simp add: flush_def cls_inv_def ps_def)
qed

lemma cls_inv_weaken:
  assumes "cls_inv f h t items k st"
  shows "(\<forall>s \<in> set (allSentences st).
        if isMetadata s
        then \<exists>i < Suc k. itemIndices s = [i] \<and> marked f h t (items ! i)
        else \<forall>i \<in> set (itemIndices s). i < Suc k \<and> plain f h t (items ! i))"
    and "\<forall>i \<in> set (currentItemIndices st). i < Suc k \<and> plain f h t (items ! i)"
    and "\<forall>i < k. marked f h t (items ! i) \<longrightarrow>
        (\<exists>s \<in> set (allSentences st). isMetadata s \<and> itemIndices s = [i])"
    and "\<forall>i < k. plain f h t (items ! i) \<longrightarrow>
        i \<in> set (currentItemIndices st) \<or>
        (\<exists>s \<in> set (allSentences st). \<not> isMetadata s \<and> i \<in> set (itemIndices s))"
proof -
  show "\<forall>s \<in> set (allSentences st).
        if isMetadata s
        then \<exists>i < Suc k. itemIndices s = [i] \<and> marked f h t (items ! i)
        else \<forall>i \<in> set (itemIndices s). i < Suc k \<and> plain f h t (items ! i)"
    using assms unfolding cls_inv_def by (fastforce simp: less_Suc_eq)
  show "\<forall>i \<in> set (currentItemIndices st). i < Suc k \<and> plain f h t (items ! i)"
    using assms by (auto simp: cls_inv_def less_Suc_eq)
  show "\<forall>i < k. marked f h t (items ! i) \<longrightarrow>
        (\<exists>s \<in> set (allSentences st). isMetadata s \<and> itemIndices s = [i])"
    using assms by (simp add: cls_inv_def)
  show "\<forall>i < k. plain f h t (items ! i) \<longrightarrow>
        i \<in> set (currentItemIndices st) \<or>
        (\<exists>s \<in> set (allSentences st). \<not> isMetadata s \<and> i \<in> set (itemIndices s))"
    using assms by (simp add: cls_inv_def)
qed

lemma cls_inv_skip:
  assumes "cls_inv f h t items k st" "str (items ! k) = []"
  shows "cls_inv f h t items (Suc k) st"
proof -
  have "\<not> marked f h t (items ! k)" "\<not> plain f h t (items ! k)"
    using assms(2) by (simp_all add: marked_def plain_def)
  with cls_inv_weaken [OF assms(1)] show ?thesis
    unfolding cls_inv_def by (auto simp: less_Suc_eq)
qed

lemma cls_inv_metadata:
  assumes "cls_inv f h t items k st" "seg_inv k st" "solid (fullText st)"
    and "marked f h t (items ! k)"
  shows "cls_inv f h t items (Suc k) (metadata_step st (items ! k) k)"
proof -
  define st' where "st' = flush st"
  define m where "m = \<lparr>stext = trim (str (items ! k)), isMetadata = True, itemIndices = [k]\<rparr>"
  have inv: "cls_inv f h t items k st'"
    unfolding st'_def using assms(1-3) by (rule cls_inv_flush)
  have step: "metadata_step st (items ! k) k = st'\<lparr>allSentences := allSentences st' @ [m]\<rparr>"
    by (simp add: metadata_step_def Let_def st'_def m_def)
  have np: "\<not> plain f h t (items ! k)" using assms(4) by (simp add: marked_def plain_def)
  note w = cls_inv_weaken [OF inv]
  have "\<forall>s \<in> set (allSentences st' @ [m]).
        if isMetadata s
        then \<exists>i < Suc k. itemIndices s = [i] \<and> marked f h t (items ! i)
        else \<forall>i \<in> set (itemIndices s). i < Suc k \<and> plain f h t (items ! i)"
    using w(1) assms(4) by (auto simp: m_def)
  moreover have "\<forall>i < Suc k. marked f h t (items ! i) \<longrightarrow>
        (\<exists>s \<in> set (allSentences st' @ [m]). isMetadata s \<and> itemIndices s = [i])"
    using w(3) by (auto simp: less_Suc_eq m_def)
  moreover have "\<forall>i < Suc k. plain f h t (items ! i) \<longrightarrow>
        i \<in> set (currentItemIndices st') \<or>
        (\<exists>s \<in> set (allSentences st' @ [m]). \<not> isMetadata s \<and> i \<in> set (itemIndices s))"
    using w(4) np by (auto simp: less_Suc_eq)
  ultimately show ?thesis unfolding step using w(2) by (simp add: cls_inv_def)
qed

lemma cls_inv_body:
  assumes "cls_inv f h t items k st" "plain f h t (items ! k)"
  shows "cls_inv f h t items (Suc k) (body_step st (items ! k) k)"
proof -
  define b where "b = \<lparr>stext = trim (fullText st @ str (items ! k) @ '' ''),
      isMetadata = False, itemIndices = currentItemIndices st @ [k]\<rparr>"
  have nm: "\<not> marked f h t (items ! k)" using assms(2) by (simp add: plain_def marked_def)
  note w = cls_inv_weaken [OF assms(1)]
  have idxs: "\<forall>i \<in> set (currentItemIndices st @ [k]). i < Suc k \<and> plain f h t (items ! i)"
    using w(2) assms(2) by auto
  have all: "\<forall>i < Suc k. marked f h t (items ! i) \<longrightarrow>
        (\<exists>s \<in> set (allSentences st). isMetadata s \<and> itemIndices s = [i])"
    using w(3) nm by (auto simp: less_Suc_eq)
  from body_step_cases [of st "items ! k" k] show ?thesis
  proof (elim disjE conjE)
    assume 1: "body_step st (items ! k) k =
       \<lparr>allSentences = allSentences st @
          [\<lparr>stext = trim (fullText st @ str (items ! k) @ '' ''), isMetadata = False,
            itemIndices = currentItemIndices st @ [k]\<rparr>],
        fullText = [], currentItemIndices = []\<rparr>"
    have "\<forall>s \<in> set (allSentences st @ [b]).
        if isMetadata s
        then \<exists>i < Suc k. itemIndices s = [i] \<and> marked f h t (items ! i)
        else \<forall>i \<in> set (itemIndices s). i < Suc k \<and> plain f h t (items ! i)"
      using w(1) idxs by (simp add: b_def)
    moreover have "\<forall>i < Suc k. marked f h t (items ! i) \<longrightarrow>
        (\<exists>s \<in> set (allSentences st @ [b]). isMetadata s \<and> itemIndices s = [i])"
      using all by auto
    moreover have "\<forall>i < Suc k. plain f h t (items ! i) \<longrightarrow>
        (\<exists>s \<in> set (allSentences st @ [b]). \<not> isMetadata s \<and> i \<in> set (itemIndices s))"
      using w(4) by (auto simp: less_Suc_eq b_def)
    ultimately show ?thesis unfolding 1 b_def [symmetric] by (simp add: cls_inv_def)
  next
    assume 2: "body_step st (items ! k) k =
       \<lparr>allSentences = allSentences st, fullText = fullText st @ str (items ! k) @ '' '',
        currentItemIndices = currentItemIndices st @ [k]\<rparr>"
    have "\<forall>i < Suc k. plain f h t (items ! i) \<longrightarrow>
        i \<in> set (currentItemIndices st @ [k]) \<or>
        (\<exists>s \<in> set (allSentences st). \<not> isMetadata s \<and> i \<in> set (itemIndices s))"
      using w(4) by (auto simp: less_Suc_eq)
    then show ?thesis unfolding 2 using w(1) idxs all by (simp add: cls_inv_def)
  qed
qed

lemma cls_inv_segment_item:
  assumes "cls_inv f h t items k st" "seg_inv k st" "solid (fullText st)"
  shows "cls_inv f h t items (Suc k) (segment_item f h t st (items ! k, k))"
proof (cases "str (items ! k) = []")
  case True
  with assms show ?thesis by (simp add: segment_item_def cls_inv_skip)
next
  case False
  show ?thesis
  proof (cases "classify f h t (items ! k)")
    case True
    with False have "marked f h t (items ! k)" by (simp add: marked_def)
    with assms True False show ?thesis by (simp add: segment_item_def cls_inv_metadata)
  next
    case c: False
    with False have "plain f h t (items ! k)" by (simp add: plain_def)
    with assms c False show ?thesis by (simp add: segment_item_def cls_inv_body)
  qed
qed

lemma zip_take_Suc:
  assumes "k < length items"
  shows "zip (take (Suc k) items) [0..<Suc k] = zip (take k items) [0..<k] @ [(items ! k, k)]"
  using assms by (simp add: take_Suc_conv_app_nth)

lemma segment_prefix_inv:
  "k \<le> length items \<Longrightarrow>
   seg_inv k (foldl (segment_item f h t) seg_init (zip (take k items) [0..<k])) \<and>
   solid (fullText (foldl (segment_item f h t) seg_init (zip (take k items) [0..<k]))) \<and>
   cls_inv f h t items k (foldl (segment_item f h t) seg_init (zip (take k items) [0..<k]))"
proof (induction k)
  case 0
  have "fullText seg_init = []" by (simp add: seg_init_def)
  then show ?case by (simp add: cls_inv_init seg_inv_init solid_Nil)
next
  case (Suc k)
  then have lt: "k < length items" by simp
  define st where "st = foldl (segment_item f h t) seg_init (zip (take k items) [0..<k])"
  from Suc have ih: "seg_inv k st" "solid (fullText st)" "cls_inv f h t items k st"
    by (simp_all add: st_def)
  have step: "foldl (segment_item f h t) seg_init (zip (take (Suc k) items) [0..<Suc k]) =
      segment_item f h t st (items ! k, k)"
    unfolding zip_take_Suc [OF lt] st_def by simp
  show ?case unfolding step
    using ih by (intro conjI segment_item_inv segment_item_solid cls_inv_segment_item)
qed

lemma segment_items_inv:
  "seg_inv (length items) (segment_items pageHeight items)"
  "solid (fullText (segment_items pageHeight items))"
  "cls_inv (footerThreshold pageHeight) (headerThreshold pageHeight) (headingThreshold items)
     items (length items) (segment_items pageHeight items)"
  using segment_prefix_inv [of "length items" items "footerThreshold pageHeight"
      "headerThreshold pageHeight" "headingThreshold items"]
  by (simp_all add: segment_items_def)

text \<open>
  Claim C5, as the code has it. An item of the page ends in a metadata sentence exactly
  when its string is not empty and its height exceeds the product of the baseline height
  and 1.3, or its trimmed string is a serial marker, or its baseline Y is below the
  product of the page height and 0.1 or above the product of the page height and 0.9;
  the three products are those of double-precision arithmetic. An item ends in a
  sentence that is not metadata exactly when its string is not empty, it meets none of
  the three conditions, and it is not left in the accumulator at the end of the page
  with a blank accumulated text. So an item with an empty string ends in no sentence,
  and neither does a blank body item that nothing but blank text follows. The baseline
  height is the entry in the middle of the ascending heights, and 12 when that entry is
  0.
\<close>

theorem classifier_marks:
  assumes "idx < length items"
  shows
  "((\<exists>s \<in> set (onPageLoadSuccess pageHeight items).
       isMetadata s \<and> idx \<in> set (itemIndices s)) \<longleftrightarrow>
    str (items ! idx) \<noteq> [] \<and>
    (\<bar>transform3 (items ! idx)\<bar> > js_times (medianHeight items) (nearest_double 1.3) \<or>
     serial_marker (trim (str (items ! idx))) \<or>
     transform5 (items ! idx) < js_times pageHeight (nearest_double 0.1) \<or>
     transform5 (items ! idx) > js_times pageHeight (nearest_double 0.9))) \<and>
   ((\<exists>s \<in> set (onPageLoadSuccess pageHeight items).
       \<not> isMetadata s \<and> idx \<in> set (itemIndices s)) \<longleftrightarrow>
    str (items ! idx) \<noteq> [] \<and>
    \<not> (\<bar>transform3 (items ! idx)\<bar> > js_times (medianHeight items) (nearest_double 1.3) \<or>
       serial_marker (trim (str (items ! idx))) \<or>
       transform5 (items ! idx) < js_times pageHeight (nearest_double 0.1) \<or>
       transform5 (items ! idx) > js_times pageHeight (nearest_double 0.9)) \<and>
    \<not> (trim (fullText (segment_items pageHeight items)) = [] \<and>
       idx \<in> set (currentItemIndices (segment_items pageHeight items)))) \<and>
   medianHeight items =
     (if sort (map (\<lambda>it. \<bar>transform3 it\<bar>) items) ! (length items div 2) = 0 then 12
      else sort (map (\<lambda>it. \<bar>transform3 it\<bar>) items) ! (length items div 2))"
proof -
  define f h t where "f = footerThreshold pageHeight" and "h = headerThreshold pageHeight"
    and "t = headingThreshold items"
  define st where "st = segment_items pageHeight items"
  define n where "n = length items"
  have ne: "items \<noteq> []" using assms by auto
  have res: "onPageLoadSuccess pageHeight items = allSentences (flush st)"
    using ne by (simp add: onPageLoadSuccess_def st_def)
  note fin = segment_items_inv [where items = items and pageHeight = pageHeight,
      folded st_def f_def h_def t_def n_def]
  have inv: "cls_inv f h t items n (flush st)" using fin(3,1,2) by (rule cls_inv_flush)
  have sinv: "seg_inv n (flush st)" using fin(1) by (rule flush_inv)
  have cl: "classify f h t (items ! idx) \<longleftrightarrow>
    (\<bar>transform3 (items ! idx)\<bar> > js_times (medianHeight items) (nearest_double 1.3) \<or>
     serial_marker (trim (str (items ! idx))) \<or>
     transform5 (items ! idx) < js_times pageHeight (nearest_double 0.1) \<or>
     transform5 (items ! idx) > js_times pageHeight (nearest_double 0.9))"
    by (auto simp: classify_def isHeading_def isSerial_def isHeaderOrFooter_def f_def h_def
        t_def footerThreshold_def headerThreshold_def headingThreshold_def)
  have idx: "idx < n" using assms by (simp add: n_def)
  have m1: "marked f h t (items ! idx)"
    if "s \<in> set (allSentences (flush st))" "isMetadata s" "idx \<in> set (itemIndices s)" for s
    using inv that unfolding cls_inv_def by fastforce
  have m2: "\<exists>s \<in> set (allSentences (flush st)). isMetadata s \<and> idx \<in> set (itemIndices s)"
    if "marked f h t (items ! idx)"
  proof -
    from inv that idx obtain s where "s \<in> set (allSentences (flush st))" "isMetadata s"
      "itemIndices s = [idx]" unfolding cls_inv_def by blast
    then show ?thesis by auto
  qed
  have p1: "plain f h t (items ! idx)"
    if "s \<in> set (allSentences (flush st))" "\<not> isMetadata s" "idx \<in> set (itemIndices s)" for s
    using inv that unfolding cls_inv_def by fastforce
  have p2: "\<not> (trim (fullText st) = [] \<and> idx \<in> set (currentItemIndices st))"
    if "s \<in> set (allSentences (flush st))" "idx \<in> set (itemIndices s)" for s
  proof
    assume a: "trim (fullText st) = [] \<and> idx \<in> set (currentItemIndices st)"
    then have "flush st = st" by (simp add: flush_def)
    with that have "idx \<in> set (concat (map itemIndices (allSentences st)))" by auto
    moreover from fin(1) have "distinct (used st)" by (simp add: seg_inv_def)
    ultimately show False using a by (auto simp: used_def)
  qed
  have p3: "\<exists>s \<in> set (allSentences (flush st)). \<not> isMetadata s \<and> idx \<in> set (itemIndices s)"
    if pl: "plain f h t (items ! idx)"
      and nb: "\<not> (trim (fullText st) = [] \<and> idx \<in> set (currentItemIndices st))"
  proof -
    from inv pl idx have "idx \<in> set (currentItemIndices (flush st)) \<or>
        (\<exists>s \<in> set (allSentences (flush st)). \<not> isMetadata s \<and> idx \<in> set (itemIndices s))"
      unfolding cls_inv_def by blast
    moreover have "idx \<notin> set (currentItemIndices (flush st))"
      using nb by (auto simp: flush_def)
    ultimately show ?thesis by blast
  qed
  have A: "(\<exists>s \<in> set (allSentences (flush st)). isMetadata s \<and> idx \<in> set (itemIndices s)) \<longleftrightarrow>
    marked f h t (items ! idx)"
    using m1 m2 by blast
  have B: "(\<exists>s \<in> set (allSentences (flush st)). \<not> isMetadata s \<and> idx \<in> set (itemIndices s)) \<longleftrightarrow>
    plain f h t (items ! idx) \<and>
    \<not> (trim (fullText st) = [] \<and> idx \<in> set (currentItemIndices st))"
    using p1 p2 p3 by blast
  have C: "medianHeight items =
     (if sort (map (\<lambda>it. \<bar>transform3 it\<bar>) items) ! (length items div 2) = 0 then 12
      else sort (map (\<lambda>it. \<bar>transform3 it\<bar>) items) ! (length items div 2))"
    by (simp add: medianHeight_def heights_def Let_def)
  from A B C show ?thesis
    unfolding res marked_def plain_def cl st_def [symmetric] by blast
qed

theorem classifier_marks_witness:
  "(1::nat) < length example_page \<and>
   (\<exists>s \<in> set (onPageLoadSuccess 800 example_page).
      \<not> isMetadata s \<and> 1 \<in> set (itemIndices s)) \<and>
   str (example_page ! 1) \<noteq> [] \<and>
   \<not> (\<bar>transform3 (example_page ! 1)\<bar> >
        js_times (medianHeight example_page) (nearest_double 1.3) \<or>
      serial_marker (trim (str (example_page ! 1))) \<or>
      transform5 (example_page ! 1) < js_times 800 (nearest_double 0.1) \<or>
      transform5 (example_page ! 1) > js_times 800 (nearest_double 0.9))"
proof -
  have len: "(1::nat) < length example_page" by (simp add: example_page_def)
  have ex: "\<exists>s \<in> set (onPageLoadSuccess 800 example_page).
      \<not> isMetadata s \<and> 1 \<in> set (itemIndices s)"
    by (simp add: example_page_sentences example_sentences_def)
  from classifier_marks [OF len, of 800] ex
  have "str (example_page ! 1) \<noteq> [] \<and>
   \<not> (\<bar>transform3 (example_page ! 1)\<bar> >
        js_times (medianHeight example_page) (nearest_double 1.3) \<or>
      serial_marker (trim (str (example_page ! 1))) \<or>
      transform5 (example_page ! 1) < js_times 800 (nearest_double 0.1) \<or>
      transform5 (example_page ! 1) > js_times 800 (nearest_double 0.9))"
    by blast
  with len ex show ?thesis by blast
qed

text \<open>
  Claim C5 as stated fails in three places. On the page of rotated text the median
  height is 0 and the third item has height 10, more than 1.3 times the median, yet the
  threshold is built from the fallback 12 and the item is body. On the page with median
  height 12 the third item is higher than the exact product \<open>1.3 * 12\<close>, but not higher than
  the product rounded to a double, and it is body. The blank item is not empty and not
  metadata, and it ends in no sentence.
\<close>

theorem classifier_counterexample:
  "heights rotated_page ! (length (heights rotated_page) div 2) = 0 \<and>
   \<bar>transform3 (rotated_page ! 2)\<bar> >
     1.3 * (heights rotated_page ! (length (heights rotated_page) div 2)) \<and>
   onPageLoadSuccess 800 rotated_page =
     [\<lparr>stext = ''a b c'', isMetadata = False, itemIndices = [0, 1, 2]\<rparr>] \<and>
   heights boundary_page ! (length (heights boundary_page) div 2) = 12 \<and>
   \<bar>transform3 (boundary_page ! 2)\<bar> >
     1.3 * (heights boundary_page ! (length (heights boundary_page) div 2)) \<and>
   onPageLoadSuccess 800 boundary_page =
     [\<lparr>stext = ''a b c'', isMetadata = False, itemIndices = [0, 1, 2]\<rparr>] \<and>
   str blank_item \<noteq> [] \<and>
   \<not> classify (footerThreshold 800) (headerThreshold 800) (headingThreshold [blank_item])
       blank_item \<and>
   onPageLoadSuccess 800 [blank_item] = []"
  by code_simp

section \<open>The read-aloud scheduler\<close>

lemma skip_metadata_takeWhile:
  "skip_metadata sents n = n + length (takeWhile isMetadata (drop n sents))"
proof (induction sents n rule: skip_metadata.induct)
  case (1 sents n)
  show ?case
  proof (cases "n < length sents \<and> isMetadata (sents ! n)")
    case True
    then have "drop n sents = sents ! n # drop (Suc n) sents"
      by (simp add: Cons_nth_drop_Suc)
    with True "1" show ?thesis by (subst skip_metadata.simps) simp
  next
    case False
    show ?thesis
    proof (cases "n < length sents")
      case True
      then have "drop n sents = sents ! n # drop (Suc n) sents"
        by (simp add: Cons_nth_drop_Suc)
      with False True show ?thesis by (subst skip_metadata.simps) simp
    next
      case False
      then show ?thesis by (subst skip_metadata.simps) simp
    qed
  qed
qed

lemma skip_metadata_ge: "nextIdx \<le> skip_metadata sents nextIdx"
  by (simp add: skip_metadata_takeWhile)

lemma run_end:
  assumes "k = i + length (takeWhile P (drop i xs))"
  shows "(\<forall>j. i \<le> j \<and> j < k \<longrightarrow> P (xs ! j)) \<and> (k < length xs \<longrightarrow> \<not> P (xs ! k))"
proof -
  define n where "n = length (takeWhile P (drop i xs))"
  have le: "n \<le> length (drop i xs)" unfolding n_def by (rule length_takeWhile_le)
  have a: "P (xs ! j)" if "i \<le> j" "j < k" for j
  proof -
    from that assms have lt: "j - i < n" by (simp add: n_def)
    then have "takeWhile P (drop i xs) ! (j - i) = drop i xs ! (j - i)"
      unfolding n_def by (rule takeWhile_nth)
    moreover have "P (takeWhile P (drop i xs) ! (j - i))"
      using lt unfolding n_def by (metis nth_mem set_takeWhileD)
    ultimately show ?thesis using that le lt by simp
  qed
  have b: "\<not> P (xs ! k)" if "k < length xs"
  proof -
    from that assms have "n < length (drop i xs)" by (simp add: n_def)
    then have "\<not> P (drop i xs ! n)" unfolding n_def by (rule nth_length_takeWhile)
    then show ?thesis using that assms by (simp add: n_def)
  qed
  from a b show ?thesis by blast
qed

text \<open>
  Claim C4, as the code has it. Let playback be active on a metadata sentence at index
  \<open>i\<close>, and let \<open>k\<close> be the end of the run of metadata sentences that starts at \<open>i\<close>. All
  sentences from \<open>i\<close> up to \<open>k\<close> are metadata. If a sentence is left at \<open>k\<close>, it is not
  metadata, the runs of the effect end with the active index \<open>k\<close>, and the only utterance
  handed to the speech engine is the text of sentence \<open>k\<close>: no text of a metadata sentence
  is spoken. If no sentence is left, the effect cancels the speech engine and speaks
  nothing, and the state stays as it was: the playing flag is still set and the active
  index is still \<open>i\<close>, on a metadata sentence.
\<close>

theorem metadata_run_skipped:
  assumes "parentIsReading r"
    and "activeSentenceIndex r < length (localSentences r)"
    and "isMetadata (localSentences r ! activeSentenceIndex r)"
  shows "let sents = localSentences r; i = activeSentenceIndex r;
             k = i + length (takeWhile isMetadata (drop i sents))
         in (\<forall>j. i \<le> j \<and> j < k \<longrightarrow> isMetadata (sents ! j)) \<and>
            (if k < length sents
             then \<not> isMetadata (sents ! k) \<and>
                  play r = (r\<lparr>activeSentenceIndex := k\<rparr>, [Cancel, Speak (stext (sents ! k))])
             else play r = (r, [Cancel]) \<and> parentIsReading (fst (play r)) \<and>
                  activeSentenceIndex (fst (play r)) = i \<and>
                  isMetadata (sents ! activeSentenceIndex (fst (play r))))"
proof -
  define sents where "sents = localSentences r"
  define i where "i = activeSentenceIndex r"
  define k where "k = i + length (takeWhile isMetadata (drop i sents))"
  have i: "i < length sents" "isMetadata (sents ! i)"
    using assms by (simp_all add: sents_def i_def)
  have run: "(\<forall>j. i \<le> j \<and> j < k \<longrightarrow> isMetadata (sents ! j)) \<and>
      (k < length sents \<longrightarrow> \<not> isMetadata (sents ! k))"
    using k_def by (rule run_end)
  from i have "drop i sents = sents ! i # drop (Suc i) sents"
    by (simp add: Cons_nth_drop_Suc)
  with i have k: "k = skip_metadata sents (i + 1)"
    by (simp add: k_def skip_metadata_takeWhile)
  then have gt: "i < k" using skip_metadata_ge [of "i + 1" sents] by simp
  have eff: "reading_effect r =
      (if k < length sents then (r\<lparr>activeSentenceIndex := k\<rparr>, []) else (r, [Cancel]))"
    using assms i k by (simp add: reading_effect_def Let_def sents_def i_def)
  have "play r = (r\<lparr>activeSentenceIndex := k\<rparr>, [Cancel, Speak (stext (sents ! k))])"
    if lt: "k < length sents"
  proof -
    from lt run have nm: "\<not> isMetadata (sents ! k)" by blast
    have "reading_effect (r\<lparr>activeSentenceIndex := k\<rparr>) =
        (r\<lparr>activeSentenceIndex := k\<rparr>, [Cancel, Speak (stext (sents ! k))])"
      using assms(1) lt nm by (auto simp: reading_effect_def Let_def sents_def)
    then have "play (r\<lparr>activeSentenceIndex := k\<rparr>) =
        (r\<lparr>activeSentenceIndex := k\<rparr>, [Cancel, Speak (stext (sents ! k))])"
      by (subst play.simps) simp
    with eff lt gt show ?thesis by (subst play.simps) (simp add: i_def)
  qed
  moreover have "play r = (r, [Cancel])" if "\<not> k < length sents"
    using that eff by (subst play.simps) simp
  moreover have "activeSentenceIndex r = i" by (simp add: i_def)
  ultimately have "(\<forall>j. i \<le> j \<and> j < k \<longrightarrow> isMetadata (sents ! j)) \<and>
            (if k < length sents
             then \<not> isMetadata (sents ! k) \<and>
                  play r = (r\<lparr>activeSentenceIndex := k\<rparr>, [Cancel, Speak (stext (sents ! k))])
             else play r = (r, [Cancel]) \<and> parentIsReading (fst (play r)) \<and>
                  activeSentenceIndex (fst (play r)) = i \<and>
                  isMetadata (sents ! activeSentenceIndex (fst (play r))))"
    using run assms(1) i(2) by simp
  then show ?thesis unfolding Let_def sents_def i_def k_def .
qed

theorem metadata_run_skipped_witness:
  "parentIsReading heading_reader \<and>
   activeSentenceIndex heading_reader < length (localSentences heading_reader) \<and>
   isMetadata (localSentences heading_reader ! activeSentenceIndex heading_reader) \<and>
   play heading_reader =
     (heading_reader\<lparr>activeSentenceIndex := 1\<rparr>, [Cancel, Speak ''The cat sat.''])"
proof -
  have h: "parentIsReading heading_reader"
    "activeSentenceIndex heading_reader < length (localSentences heading_reader)"
    "isMetadata (localSentences heading_reader ! activeSentenceIndex heading_reader)"
    by (simp_all add: heading_reader_def example_sentences_def)
  have k: "activeSentenceIndex heading_reader +
      length (takeWhile isMetadata
        (drop (activeSentenceIndex heading_reader) (localSentences heading_reader))) = 1"
    by (simp add: heading_reader_def example_sentences_def)
  have s: "stext (localSentences heading_reader ! Suc 0) = ''The cat sat.''"
    "length (localSentences heading_reader) = 3"
    by (simp_all add: heading_reader_def example_sentences_def)
  from metadata_run_skipped [OF h]
  have "play heading_reader =
     (heading_reader\<lparr>activeSentenceIndex := 1\<rparr>, [Cancel, Speak ''The cat sat.''])"
    unfolding Let_def k by (simp add: s)
  with h show ?thesis by blast
qed

text \<open>
  Claim C4 as stated fails in its last clause: on a page of metadata sentences only, the
  playing reader cancels the speech engine and is left as it was, playing and on its
  metadata sentence; it has not stopped.
\<close>

theorem metadata_run_end_counterexample:
  "parentIsReading front_matter_reader \<and>
   activeSentenceIndex front_matter_reader < length (localSentences front_matter_reader) \<and>
   list_all isMetadata (localSentences front_matter_reader) \<and>
   play front_matter_reader = (front_matter_reader, [Cancel]) \<and>
   parentIsReading (fst (play front_matter_reader)) \<and>
   activeSentenceIndex (fst (play front_matter_reader)) = 0 \<and>
   isMetadata (localSentences (fst (play front_matter_reader)) !
     activeSentenceIndex (fst (play front_matter_reader)))"
proof -
  have s: "skip_metadata (localSentences front_matter_reader) (0 + 1) = 2"
    by (simp add: skip_metadata_takeWhile front_matter_reader_def)
  have e: "reading_effect front_matter_reader = (front_matter_reader, [Cancel])"
    using s by (simp add: reading_effect_def Let_def front_matter_reader_def)
  have p: "play front_matter_reader = (front_matter_reader, [Cancel])"
    by (subst play.simps) (simp add: e)
  show ?thesis unfolding p by (simp add: front_matter_reader_def)
qed

text \<open>
  Claim C3, as the code has it. When the utterance of sentence \<open>i\<close> ends and \<open>i\<close> is not
  the last index, the active index becomes \<open>i + 1\<close>, and while playback is active the
  effect speaks sentence \<open>i + 1\<close> if it is not metadata. When \<open>i\<close> is the last index the
  handler leaves the whole state as it is: the index stays and so does the playing flag,
  which only the parent component sets.
\<close>

theorem speech_end:
  assumes "activeSentenceIndex r = i" and "localSentences r = sents" and "i < length sents"
  shows "(i + 1 < length sents \<longrightarrow>
            utterance_onend i sents r = r\<lparr>activeSentenceIndex := i + 1\<rparr> \<and>
            (parentIsReading r \<and> \<not> isMetadata (sents ! (i + 1)) \<longrightarrow>
               reading_effect (utterance_onend i sents r) =
                 (r\<lparr>activeSentenceIndex := i + 1\<rparr>,
                  [Cancel, Speak (stext (sents ! (i + 1)))]))) \<and>
         (i + 1 = length sents \<longrightarrow> utterance_onend i sents r = r)"
  using assms by (auto simp: utterance_onend_def reading_effect_def Let_def)

theorem speech_end_witness:
  "activeSentenceIndex last_sentence_reader = 2 \<and>
   localSentences last_sentence_reader = example_sentences \<and>
   (2::nat) < length example_sentences \<and> (2::nat) + 1 = length example_sentences \<and>
   utterance_onend 2 example_sentences last_sentence_reader = last_sentence_reader"
proof -
  have h: "activeSentenceIndex last_sentence_reader = 2"
    "localSentences last_sentence_reader = example_sentences"
    "(2::nat) < length example_sentences"
    by (simp_all add: last_sentence_reader_def example_sentences_def)
  have l: "(2::nat) + 1 = length example_sentences" by (simp add: example_sentences_def)
  from speech_end [OF h] l
  have "utterance_onend 2 example_sentences last_sentence_reader = last_sentence_reader"
    by blast
  with h l show ?thesis by blast
qed

text \<open>
  Claim C3 as stated fails at the last sentence: the reader speaks the last sentence of
  the example page, the utterance ends, and the playing flag is still set.
\<close>

theorem speech_end_counterexample:
  "activeSentenceIndex last_sentence_reader + 1 = length (localSentences last_sentence_reader) \<and>
   reading_effect last_sentence_reader =
     (last_sentence_reader, [Cancel, Speak ''It was happy!'']) \<and>
   parentIsReading
     (utterance_onend (activeSentenceIndex last_sentence_reader)
        (localSentences last_sentence_reader) last_sentence_reader)"
  by (simp add: last_sentence_reader_def example_sentences_def reading_effect_def
      utterance_onend_def)

section \<open>Word matching\<close>

text \<open>
  Claim C6. \<open>getWordMatchMap\<close> lowers the case and splits at single spaces, and compares
  word \<open>i\<close> of the expected text with word \<open>i\<close> of the spoken text; it does not strip
  punctuation. For the expected text \<open>The cat sat.\<close> and the spoken text \<open>the cat sat\<close> the
  last word is marked wrong, although the two texts have the same words once normalised
  as the live feedback normalises them. The example of the claim holds: expected
  \<open>the cat sat\<close> against spoken \<open>the cat sad\<close> gives true, true, false.
\<close>

theorem word_match_keeps_punctuation:
  "getWordMatchMap ''The cat sat.'' (Some ''the cat sat'') =
     [(''the'', True), (''cat'', True), (''sat.'', False)] \<and>
   normalize_words ''The cat sat.'' = normalize_words ''the cat sat'' \<and>
   map snd (getWordMatchMap ''the cat sat'' (Some ''the cat sad'')) = [True, True, False]"
  by code_simp

section \<open>Release of the microphone\<close>

text \<open>
  Claim C8. Whatever the decoder does with the recording, the stop handler makes one
  call of \<open>onPractice\<close> and then stops every track of the stream, in order. When the
  conversion fails the blob forwarded is the recorded one, of type \<open>audio/webm\<close>; when
  it succeeds it is the WAV blob. In particular a decoder that rejects the recording
  makes the handler forward the recorded blob and release the tracks.
\<close>

theorem recorder_releases:
  "(\<exists>forwarded. recorder_onstop decodeAudioData audioChunks tracks =
      OnPractice forwarded # map TrackStop tracks) \<and>
   (case convertToWav decodeAudioData \<lparr>blob_data = concat audioChunks, blob_type = ''audio/webm''\<rparr> of
      Inl err \<Rightarrow>
        recorder_onstop decodeAudioData audioChunks tracks =
          OnPractice \<lparr>blob_data = concat audioChunks, blob_type = ''audio/webm''\<rparr> #
          map TrackStop tracks
    | Inr wavBlob \<Rightarrow>
        recorder_onstop decodeAudioData audioChunks tracks =
          OnPractice wavBlob # map TrackStop tracks) \<and>
   (decodeAudioData (concat audioChunks) = None \<longrightarrow>
      recorder_onstop decodeAudioData audioChunks tracks =
        OnPractice \<lparr>blob_data = concat audioChunks, blob_type = ''audio/webm''\<rparr> #
        map TrackStop tracks)"
  by (auto simp: recorder_onstop_def Let_def convertToWav_def split: sum.splits)

theorem recorder_releases_witness:
  "(\<lambda>d. None :: audio_buffer option) (concat [[1, 2], [3]]) = None \<and>
   recorder_onstop (\<lambda>d. None) [[1, 2], [3]] [0 :: nat, 1] =
     [OnPractice \<lparr>blob_data = [1, 2, 3], blob_type = ''audio/webm''\<rparr>,
      TrackStop 0, TrackStop 1]"
proof -
  have h: "(\<lambda>d. None :: audio_buffer option) (concat [[1, 2], [3]]) = None" by simp
  from recorder_releases [of "\<lambda>d. None" "[[1, 2], [3]]" "[0 :: nat, 1]"] h
  have "recorder_onstop (\<lambda>d. None) [[1, 2], [3]] [0 :: nat, 1] =
        OnPractice \<lparr>blob_data = concat [[1, 2], [3]], blob_type = ''audio/webm''\<rparr> #
        map TrackStop [0, 1]"
    by blast
  then show ?thesis by simp
qed

section \<open>Quantisation of the samples\<close>

lemma js_trunc_bounds:
  assumes "- 32768 \<le> v" "v \<le> 32767"
  shows "- 32768 \<le> js_trunc v \<and> js_trunc v \<le> 32767"
proof (cases "v \<ge> 0")
  case True
  then have "0 \<le> \<lfloor>v\<rfloor>" by simp
  moreover have "\<lfloor>v\<rfloor> \<le> 32767" using assms(2) by (simp add: floor_le_iff)
  ultimately show ?thesis using True by (simp add: js_trunc_def)
next
  case False
  then have "\<lceil>v\<rceil> \<le> 0" by (simp add: ceiling_le_iff)
  moreover have "- 32768 \<le> \<lceil>v\<rceil>" using assms(1) by (simp add: le_ceiling_iff)
  ultimately show ?thesis using False by (simp add: js_trunc_def)
qed

lemma sint_word_of_int_16:
  assumes "- 32768 \<le> k" "k \<le> 32767"
  shows "sint (word_of_int k :: 16 word) = k"
  using assms by (simp add: sint_sbintrunc' signed_take_bit_int_eq_self)


lemma scaled_in_range:
  assumes "- 1 \<le> s" "s \<le> 1"
  defines "q \<equiv> if s < 0 then s * 32768 else s * 32767"
  shows "scale_sample (Finite s) = Finite q" "- 32768 \<le> q" "q \<le> 32767"
    "sint (ToInt16 (scale_sample (Finite s))) = js_trunc q"
proof -
  show sc: "scale_sample (Finite s) = Finite q" by (simp add: scale_sample_def q_def)
  show q: "- 32768 \<le> q" "q \<le> 32767" using assms(1,2) by (auto simp: q_def)
  from js_trunc_bounds [OF q] have "sint (word_of_int (js_trunc q) :: 16 word) = js_trunc q"
    by (intro sint_word_of_int_16) simp_all
  then show "sint (ToInt16 (scale_sample (Finite s))) = js_trunc q" unfolding sc by simp
qed



section \<open>The encoded buffer\<close>

lemma replicate_split: "m \<le> k \<Longrightarrow> replicate k x = replicate m x @ replicate (k - m) x"
  by (simp flip: replicate_add)

lemma upd2: "(a @ x1 # x2 # c)[length a := y1, length a + 1 := y2] = a @ y1 # y2 # c"
  by (simp add: list_update_append)

lemma upd4:
  "(a @ x1 # x2 # x3 # x4 # c)[length a := y1, length a + 1 := y2, length a + 2 := y3,
     length a + 3 := y4] = a @ y1 # y2 # y3 # y4 # c"
  by (simp add: list_update_append numeral_3_eq_3 numeral_2_eq_2)

lemma rep2: "replicate 2 x = [x, x]"
  by (simp add: numeral_2_eq_2)

lemma rep4: "replicate 4 x = [x, x, x, x]"
  by (simp add: numeral_eq_Suc)

lemma setUint8_cursor:
  "length a = off \<Longrightarrow>
   setUint8 (a @ replicate (Suc k) 0) off v = Some ((a @ [of_nat v]) @ replicate k 0)"
  by (auto simp: setUint8_def)

lemma setUint16_cursor:
  assumes "length a = off" "2 \<le> k"
  shows "setUint16 (a @ replicate k 0) off v = Some ((a @ le16 v) @ replicate (k - 2) 0)"
proof -
  have r: "replicate k (0::byte) = [0, 0] @ replicate (k - 2) 0"
    using replicate_split [OF assms(2), of "0::byte"] unfolding rep2 .
  have "off + 2 \<le> length (a @ replicate k 0)" using assms by simp
  then have "setUint16 (a @ replicate k 0) off v =
      Some ((a @ replicate k 0)[off := of_nat v, off + 1 := of_nat (v div 2 ^ 8)])"
    by (simp only: setUint16_def if_True)
  also have "(a @ replicate k 0)[off := of_nat v, off + 1 := of_nat (v div 2 ^ 8)] =
      (a @ le16 v) @ replicate (k - 2) 0"
    unfolding r assms(1) [symmetric] le16_def
    using upd2 [of a 0 0 "replicate (k - 2) 0" "of_nat v" "of_nat (v div 2 ^ 8)"] by simp
  finally show ?thesis .
qed

lemma setInt16_cursor:
  assumes "length a = off" "2 \<le> k"
  shows "setInt16 (a @ replicate k 0) off (scale_sample (clamp_sample x)) =
     Some ((a @ pcm_bytes x) @ replicate (k - 2) 0)"
proof -
  define w where "w = ToInt16 (scale_sample (clamp_sample x))"
  have r: "replicate k (0::byte) = [0, 0] @ replicate (k - 2) 0"
    using replicate_split [OF assms(2), of "0::byte"] unfolding rep2 .
  have "off + 2 \<le> length (a @ replicate k 0)" using assms by simp
  then have "setInt16 (a @ replicate k 0) off (scale_sample (clamp_sample x)) =
      Some ((a @ replicate k 0)[off := ucast w, off + 1 := ucast (drop_bit 8 w)])"
    by (simp only: setInt16_def if_True w_def)
  also have "(a @ replicate k 0)[off := ucast w, off + 1 := ucast (drop_bit 8 w)] =
      (a @ pcm_bytes x) @ replicate (k - 2) 0"
    unfolding r assms(1) [symmetric] pcm_bytes_def w_def [symmetric]
    using upd2 [of a 0 0 "replicate (k - 2) 0" "ucast w" "ucast (drop_bit 8 w)"] by simp
  finally show ?thesis .
qed

lemma setUint32_cursor:
  assumes "length a = off" "4 \<le> k"
  shows "setUint32 (a @ replicate k 0) off v = Some ((a @ le32 v) @ replicate (k - 4) 0)"
proof -
  have r: "replicate k (0::byte) = [0, 0, 0, 0] @ replicate (k - 4) 0"
    using replicate_split [OF assms(2), of "0::byte"] unfolding rep4 .
  have "off + 4 \<le> length (a @ replicate k 0)" using assms by simp
  then have "setUint32 (a @ replicate k 0) off v =
      Some ((a @ replicate k 0)[off := of_nat v, off + 1 := of_nat (v div 2 ^ 8),
        off + 2 := of_nat (v div 2 ^ 16), off + 3 := of_nat (v div 2 ^ 24)])"
    by (simp only: setUint32_def if_True)
  also have "(a @ replicate k 0)[off := of_nat v, off + 1 := of_nat (v div 2 ^ 8),
        off + 2 := of_nat (v div 2 ^ 16), off + 3 := of_nat (v div 2 ^ 24)] =
      (a @ le32 v) @ replicate (k - 4) 0"
    unfolding r assms(1) [symmetric] le32_def
    using upd4 [of a 0 0 0 0 "replicate (k - 4) 0" "of_nat v" "of_nat (v div 2 ^ 8)"
        "of_nat (v div 2 ^ 16)" "of_nat (v div 2 ^ 24)"] by simp
  finally show ?thesis .
qed

lemma writeString_cursor:
  "length a = off \<Longrightarrow> length s \<le> k \<Longrightarrow>
   writeString (a @ replicate k 0) off s = Some ((a @ ascii s) @ replicate (k - length s) 0)"
proof (induction s arbitrary: a off k)
  case Nil
  then show ?case by (simp add: ascii_def)
next
  case (Cons c cs)
  then obtain k' where k': "k = Suc k'" by (cases k) auto
  have "setUint8 (a @ replicate (Suc k') 0) off (of_char c) =
      Some ((a @ [of_nat (of_char c)]) @ replicate k' 0)"
    using Cons.prems(1) by (rule setUint8_cursor)
  moreover have "writeString ((a @ [of_nat (of_char c)]) @ replicate k' 0) (off + 1) cs =
      Some (((a @ [of_nat (of_char c)]) @ ascii cs) @ replicate (k' - length cs) 0)"
    using Cons.prems k' by (intro Cons.IH) simp_all
  ultimately show ?case unfolding k' by (simp add: ascii_def)
qed

lemma write_samples_cursor:
  "length a = off \<Longrightarrow> 2 * length xs \<le> k \<Longrightarrow>
   write_samples (a @ replicate k 0) off xs =
     Some ((a @ concat (map pcm_bytes xs)) @ replicate (k - 2 * length xs) 0)"
proof (induction xs arbitrary: a off k)
  case Nil
  then show ?case by simp
next
  case (Cons x xs)
  have "setInt16 (a @ replicate k 0) off (scale_sample (clamp_sample x)) =
      Some ((a @ pcm_bytes x) @ replicate (k - 2) 0)"
    using Cons.prems by (intro setInt16_cursor) simp_all
  moreover have "write_samples ((a @ pcm_bytes x) @ replicate (k - 2) 0) (off + 2) xs =
      Some (((a @ pcm_bytes x) @ concat (map pcm_bytes xs)) @ replicate (k - 2 - 2 * length xs) 0)"
    using Cons.prems by (intro Cons.IH) (simp_all add: pcm_bytes_def)
  ultimately show ?case by simp
qed

lemma lengths [simp]:
  "length (le16 v) = 2" "length (le32 v) = 4" "length (ascii s) = length s"
  "length (pcm_bytes x) = 2"
  by (simp_all add: le16_def le32_def ascii_def pcm_bytes_def)

lemma encodeWav_bytes:
  "encodeWav samples rate =
     Some (wav_header (length samples) rate @ concat (map pcm_bytes samples))"
proof -
  define n where "n = length samples * 2"
  define h0 :: "byte list" where "h0 = []"
  define h1 where "h1 = h0 @ ascii ''RIFF''"
  define h2 where "h2 = h1 @ le32 (36 + length samples * 2)"
  define h3 where "h3 = h2 @ ascii ''WAVE''"
  define h4 where "h4 = h3 @ ascii ''fmt ''"
  define h5 where "h5 = h4 @ le32 16"
  define h6 where "h6 = h5 @ le16 1"
  define h7 where "h7 = h6 @ le16 1"
  define h8 where "h8 = h7 @ le32 rate"
  define h9 where "h9 = h8 @ le32 (rate * 2)"
  define h10 where "h10 = h9 @ le16 2"
  define h11 where "h11 = h10 @ le16 16"
  define h12 where "h12 = h11 @ ascii ''data''"
  define h13 where "h13 = h12 @ le32 (length samples * 2)"
  note hs = h0_def h1_def h2_def h3_def h4_def h5_def h6_def
    h7_def h8_def h9_def h10_def h11_def h12_def h13_def
  have len: "length h0 = 0" "length h1 = 4" "length h2 = 8" "length h3 = 12" "length h4 = 16"
    "length h5 = 20" "length h6 = 22" "length h7 = 24" "length h8 = 28" "length h9 = 32"
    "length h10 = 34" "length h11 = 36" "length h12 = 40" "length h13 = 44"
    by (simp_all add: hs)
  have s1: "writeString (h0 @ replicate (44 + n) 0) 0 ''RIFF'' =
      Some (h1 @ replicate (40 + n) 0)"
    using writeString_cursor [of h0 0 "''RIFF''" "44 + n"] len
    by (simp add: h1_def)
  have s2: "setUint32 (h1 @ replicate (40 + n) 0) 4 (36 + length samples * 2) =
      Some (h2 @ replicate (36 + n) 0)"
    using setUint32_cursor [of h1 4 "40 + n" "36 + length samples * 2"] len
    by (simp add: h2_def)
  have s3: "writeString (h2 @ replicate (36 + n) 0) 8 ''WAVE'' =
      Some (h3 @ replicate (32 + n) 0)"
    using writeString_cursor [of h2 8 "''WAVE''" "36 + n"] len
    by (simp add: h3_def)
  have s4: "writeString (h3 @ replicate (32 + n) 0) 12 ''fmt '' =
      Some (h4 @ replicate (28 + n) 0)"
    using writeString_cursor [of h3 12 "''fmt ''" "32 + n"] len
    by (simp add: h4_def)
  have s5: "setUint32 (h4 @ replicate (28 + n) 0) 16 16 = Some (h5 @ replicate (24 + n) 0)"
    using setUint32_cursor [of h4 16 "28 + n" "16"] len
    by (simp add: h5_def)
  have s6: "setUint16 (h5 @ replicate (24 + n) 0) 20 1 = Some (h6 @ replicate (22 + n) 0)"
    using setUint16_cursor [of h5 20 "24 + n" "1"] len
    by (simp add: h6_def)
  have s7: "setUint16 (h6 @ replicate (22 + n) 0) 22 1 = Some (h7 @ replicate (20 + n) 0)"
    using setUint16_cursor [of h6 22 "22 + n" "1"] len
    by (simp add: h7_def)
  have s8: "setUint32 (h7 @ replicate (20 + n) 0) 24 rate = Some (h8 @ replicate (16 + n) 0)"
    using setUint32_cursor [of h7 24 "20 + n" "rate"] len
    by (simp add: h8_def)
  have s9: "setUint32 (h8 @ replicate (16 + n) 0) 28 (rate * 2) =
      Some (h9 @ replicate (12 + n) 0)"
    using setUint32_cursor [of h8 28 "16 + n" "rate * 2"] len
    by (simp add: h9_def)
  have s10: "setUint16 (h9 @ replicate (12 + n) 0) 32 2 = Some (h10 @ replicate (10 + n) 0)"
    using setUint16_cursor [of h9 32 "12 + n" "2"] len
    by (simp add: h10_def)
  have s11: "setUint16 (h10 @ replicate (10 + n) 0) 34 16 = Some (h11 @ replicate (8 + n) 0)"
    using setUint16_cursor [of h10 34 "10 + n" "16"] len
    by (simp add: h11_def)
  have s12: "writeString (h11 @ replicate (8 + n) 0) 36 ''data'' =
      Some (h12 @ replicate (4 + n) 0)"
    using writeString_cursor [of h11 36 "''data''" "8 + n"] len
    by (simp add: h12_def)
  have s13: "setUint32 (h12 @ replicate (4 + n) 0) 40 (length samples * 2) =
      Some (h13 @ replicate (0 + n) 0)"
    using setUint32_cursor [of h12 40 "4 + n" "length samples * 2"] len
    by (simp add: h13_def)
  have s14: "write_samples (h13 @ replicate (0 + n) 0) 44 samples =
      Some (h13 @ concat (map pcm_bytes samples))"
    using write_samples_cursor [of h13 44 samples n] len by (simp add: n_def)
  have hd: "h13 = wav_header (length samples) rate"
    by (simp add: hs wav_header_def)
  have start: "replicate (44 + length samples * 2) (0::byte) = h0 @ replicate (44 + n) 0"
    by (simp add: h0_def n_def)
  have "encodeWav samples rate = Some (h13 @ concat (map pcm_bytes samples))"
    unfolding encodeWav_def Let_def start
    by (simp only: s1 s2 s3 s4 s5 s6 s7 s8 s9 s10 s11 s12 s13 s14 Option.bind.bind_lunit)
  then show ?thesis by (simp only: hd)
qed

lemma le16_value:
  "(v::nat) mod 256 + 256 * ((v div 256) mod 256) = v mod 65536"
  using mod_mult2_eq [of v 256 256] by simp

lemma le32_value:
  "(v::nat) mod 256 + 256 * ((v div 256) mod 256) + 65536 * ((v div 65536) mod 256) +
   16777216 * ((v div 16777216) mod 256) = v mod 4294967296"
proof -
  have a: "v mod 4294967296 = 65536 * (v div 65536 mod 65536) + v mod 65536"
    using mod_mult2_eq [of v 65536 65536] by simp
  have b: "v mod 65536 = 256 * (v div 256 mod 256) + v mod 256"
    using mod_mult2_eq [of v 256 256] by simp
  have c: "v div 65536 mod 65536 = 256 * (v div 65536 div 256 mod 256) + v div 65536 mod 256"
    using mod_mult2_eq [of "v div 65536" 256 256] by simp
  have d: "v div 65536 div 256 = v div 16777216"
    by (simp add: div_mult2_eq [symmetric])
  show ?thesis unfolding a b c d by simp
qed

lemma unat_byte: "unat (of_nat v :: byte) = v mod 256"
  by (simp add: unat_of_nat)

lemma unat_lo: "unat (ucast (w :: 16 word) :: byte) = unat w mod 256"
  by (simp add: unsigned_ucast_eq take_bit_eq_mod)

lemma unat_hi: "unat (drop_bit 8 (w :: 16 word)) mod 256 = unat w div 256"
proof -
  have "unat w < 65536" using unsigned_less [of w, where 'a = nat] by simp
  then have "unat w div 256 < 256" by simp
  moreover have "unat (drop_bit 8 w) = unat w div 256"
    unfolding unat_drop_bit_eq by (simp add: drop_bit_eq_div)
  ultimately show ?thesis by simp
qed

lemma getUint16_le16: "getUint16 (a @ le16 v @ c) (length a) = v mod 2 ^ 16"
  using le16_value [of v]
  by (simp add: getUint16_def le16_def nth_append unat_byte)

lemma getUint32_le32: "getUint32 (a @ le32 v @ c) (length a) = v mod 2 ^ 32"
  using le32_value [of v]
  by (simp add: getUint32_def le32_def nth_append unat_byte)

lemma getInt16_pcm_bytes:
  "getInt16 (a @ pcm_bytes x @ c) (length a) = sint (ToInt16 (scale_sample (clamp_sample x)))"
proof -
  define w where "w = ToInt16 (scale_sample (clamp_sample x))"
  have b: "pcm_bytes x = [ucast w, ucast (drop_bit 8 w)]" by (simp add: pcm_bytes_def w_def)
  have "(a @ pcm_bytes x @ c) ! length a = ucast w"
    "(a @ pcm_bytes x @ c) ! (length a + 1) = ucast (drop_bit 8 w)"
    unfolding b by (simp_all add: nth_append)
  then have "getUint16 (a @ pcm_bytes x @ c) (length a) =
      unat (ucast w :: byte) + 2 ^ 8 * unat (ucast (drop_bit 8 w) :: byte)"
    by (simp only: getUint16_def)
  also have "unat (ucast w :: byte) = unat w mod 256" by (rule unat_lo)
  also have "unat (ucast (drop_bit 8 w) :: byte) = unat (drop_bit 8 w) mod 256" by (rule unat_lo)
  also have "unat (drop_bit 8 w) mod 256 = unat w div 256" by (rule unat_hi)
  finally have "getUint16 (a @ pcm_bytes x @ c) (length a) = unat w" by simp
  then show ?thesis by (simp add: getInt16_def w_def)
qed

lemma length_pcm_data: "length (concat (map pcm_bytes xs)) = 2 * length xs"
  by (induction xs) simp_all

lemma length_wav_header: "length (wav_header n rate) = 44"
  by (simp add: wav_header_def)

lemma pcm_data_split:
  assumes "i < length xs"
  shows "concat (map pcm_bytes xs) =
    concat (map pcm_bytes (take i xs)) @ pcm_bytes (xs ! i) @ concat (map pcm_bytes (drop (Suc i) xs))"
proof -
  have "xs = take i xs @ xs ! i # drop (Suc i) xs" using assms by (rule id_take_nth_drop)
  then have "concat (map pcm_bytes xs) =
      concat (map pcm_bytes (take i xs @ xs ! i # drop (Suc i) xs))" by simp
  then show ?thesis by simp
qed

lemma wav_fields:
  fixes n rate d
  defines "wav \<equiv> wav_header n rate @ d"
  shows "getUint16 wav 20 = 1" "getUint16 wav 22 = 1" "getUint32 wav 24 = rate mod 2 ^ 32"
    "getUint16 wav 34 = 16" "getUint32 wav 40 = (n * 2) mod 2 ^ 32"
proof -
  define a20 where
    "a20 = ascii ''RIFF'' @ le32 (36 + n * 2) @ ascii ''WAVE'' @ ascii ''fmt '' @ le32 16"
  define a22 where "a22 = a20 @ le16 1"
  define a24 where "a24 = a22 @ le16 1"
  define a34 where "a34 = a24 @ le32 rate @ le32 (rate * 2) @ le16 2"
  define a40 where "a40 = a34 @ le16 16 @ ascii ''data''"
  define r20 where "r20 = le16 1 @ le32 rate @ le32 (rate * 2) @ le16 2 @ le16 16 @
      ascii ''data'' @ le32 (n * 2) @ d"
  define r22 where "r22 = le32 rate @ le32 (rate * 2) @ le16 2 @ le16 16 @
      ascii ''data'' @ le32 (n * 2) @ d"
  define r24 where "r24 = le32 (rate * 2) @ le16 2 @ le16 16 @ ascii ''data'' @ le32 (n * 2) @ d"
  define r34 where "r34 = ascii ''data'' @ le32 (n * 2) @ d"
  note as = a20_def a22_def a24_def a34_def a40_def r20_def r22_def r24_def r34_def
  have len: "length a20 = 20" "length a22 = 22" "length a24 = 24" "length a34 = 34"
    "length a40 = 40"
    by (simp_all add: as)
  have e20: "wav = a20 @ le16 1 @ r20" by (simp add: wav_def wav_header_def as)
  have e22: "wav = a22 @ le16 1 @ r22" by (simp add: wav_def wav_header_def as)
  have e24: "wav = a24 @ le32 rate @ r24" by (simp add: wav_def wav_header_def as)
  have e34: "wav = a34 @ le16 16 @ r34" by (simp add: wav_def wav_header_def as)
  have e40: "wav = a40 @ le32 (n * 2) @ d" by (simp add: wav_def wav_header_def as)
  show "getUint16 wav 20 = 1"
    unfolding e20 len(1) [symmetric] by (simp only: getUint16_le16) simp
  show "getUint16 wav 22 = 1"
    unfolding e22 len(2) [symmetric] by (simp only: getUint16_le16) simp
  show "getUint32 wav 24 = rate mod 2 ^ 32"
    unfolding e24 len(3) [symmetric] by (simp only: getUint32_le32)
  show "getUint16 wav 34 = 16"
    unfolding e34 len(4) [symmetric] by (simp only: getUint16_le16) simp
  show "getUint32 wav 40 = (n * 2) mod 2 ^ 32"
    unfolding e40 len(5) [symmetric] by (simp only: getUint32_le32)
qed

lemma wav_sample:
  assumes "i < length xs"
  shows "getInt16 (wav_header n rate @ concat (map pcm_bytes xs)) (44 + 2 * i) =
    sint (ToInt16 (scale_sample (clamp_sample (xs ! i))))"
proof -
  define a where "a = wav_header n rate @ concat (map pcm_bytes (take i xs))"
  define c where "c = concat (map pcm_bytes (drop (Suc i) xs))"
  have len: "length a = 44 + 2 * i"
    using assms by (simp add: a_def length_wav_header length_pcm_data)
  have e: "wav_header n rate @ concat (map pcm_bytes xs) = a @ pcm_bytes (xs ! i) @ c"
    using pcm_data_split [OF assms] by (simp add: a_def c_def)
  show ?thesis unfolding e len [symmetric] by (rule getInt16_pcm_bytes)
qed

lemma quantized_value:
  "sint (ToInt16 (scale_sample (clamp_sample x))) =
     (case x of
        NaN \<Rightarrow> 0
      | NegInfinity \<Rightarrow> - 32768
      | PosInfinity \<Rightarrow> 32767
      | Finite v \<Rightarrow> if v < 0 then \<lceil>max (- 1) v * 32768\<rceil> else \<lfloor>min 1 v * 32767\<rfloor>)"
proof (cases x)
  case NaN
  then show ?thesis by (simp add: clamp_sample_def scale_sample_def)
next
  case NegInfinity
  have "sint (ToInt16 (scale_sample (Finite (- 1)))) = js_trunc (- 32768)"
    using scaled_in_range(4) [of "- 1"] by simp
  then show ?thesis using NegInfinity by (simp add: clamp_sample_def js_trunc_def)
next
  case PosInfinity
  have "sint (ToInt16 (scale_sample (Finite 1))) = js_trunc 32767"
    using scaled_in_range(4) [of 1] by simp
  then show ?thesis using PosInfinity by (simp add: clamp_sample_def js_trunc_def)
next
  case (Finite v)
  define s where "s = max (- 1) (min 1 v)"
  have s: "- 1 \<le> s" "s \<le> 1" by (simp_all add: s_def)
  have c: "clamp_sample x = Finite s" using Finite by (simp add: clamp_sample_def s_def)
  note q = scaled_in_range(4) [OF s]
  show ?thesis
  proof (cases "v < 0")
    case True
    then have "s = max (- 1) v" "s < 0" by (auto simp: s_def)
    then have "js_trunc (if s < 0 then s * 32768 else s * 32767) = \<lceil>max (- 1) v * 32768\<rceil>"
      by (auto simp: js_trunc_def mult_less_0_iff)
    with q c Finite True show ?thesis by simp
  next
    case False
    then have "s = min 1 v" "0 \<le> s" by (auto simp: s_def)
    then have "js_trunc (if s < 0 then s * 32768 else s * 32767) = \<lfloor>min 1 v * 32767\<rfloor>"
      by (auto simp: js_trunc_def)
    with q c Finite False show ?thesis by simp
  qed
qed

text \<open>
  Claim C7. Whatever recording the decoder returns, with whatever sample rate and
  however many channels (at least one), the conversion succeeds and yields a buffer of
  44 header bytes followed by two bytes per sample of the first channel. The header
  starts with \<open>RIFF\<close> and declares the format tag 1 (linear PCM), 1 channel, the sample
  rate 16000 and 16 bits per sample. Its data-length field holds twice the number of
  samples, reduced modulo \<open>2^32\<close> as the 32-bit field requires, hence exactly twice the
  number of samples for fewer than \<open>2^31\<close> samples. Sample \<open>i\<close> is stored at offset
  \<open>44 + 2 i\<close> as a signed 16-bit integer: a negative sample \<open>v\<close> is clamped to
  \<open>max (-1) v\<close>, scaled by 32768 and truncated towards zero, any other finite sample is
  clamped to \<open>min 1 v\<close>, scaled by 32767 and truncated; the infinities are stored as
  -32768 and 32767, NaN as 0.
\<close>

theorem wav_header_canonical:
  assumes "decodeAudioData (blob_data b) = Some audioBuffer"
    and "channelData audioBuffer = pcmData # others"
  shows "\<exists>wav. convertToWav decodeAudioData b = Inr \<lparr>blob_data = wav, blob_type = ''audio/wav''\<rparr> \<and>
    length wav = 44 + 2 * length pcmData \<and>
    take 4 wav = ascii ''RIFF'' \<and>
    getUint16 wav 20 = 1 \<and> getUint16 wav 22 = 1 \<and> getUint32 wav 24 = 16000 \<and>
    getUint16 wav 34 = 16 \<and>
    getUint32 wav 40 = (2 * length pcmData) mod 2 ^ 32 \<and>
    (length pcmData < 2 ^ 31 \<longrightarrow> getUint32 wav 40 = 2 * length pcmData) \<and>
    (\<forall>i < length pcmData.
       getInt16 wav (44 + 2 * i) = sint (ToInt16 (scale_sample (clamp_sample (pcmData ! i))))) \<and>
    (\<forall>i < length pcmData.
       getInt16 wav (44 + 2 * i) =
         (case pcmData ! i of
            NaN \<Rightarrow> 0
          | NegInfinity \<Rightarrow> - 32768
          | PosInfinity \<Rightarrow> 32767
          | Finite v \<Rightarrow>
              if v < 0 then \<lceil>max (- 1) v * 32768\<rceil> else \<lfloor>min 1 v * 32767\<rfloor>))"
proof -
  define wav where "wav = wav_header (length pcmData) 16000 @ concat (map pcm_bytes pcmData)"
  have enc: "encodeWav pcmData 16000 = Some wav" unfolding wav_def by (rule encodeWav_bytes)
  have conv: "convertToWav decodeAudioData b = Inr \<lparr>blob_data = wav, blob_type = ''audio/wav''\<rparr>"
    using assms enc by (simp add: convertToWav_def getChannelData0_def)
  have len: "length wav = 44 + 2 * length pcmData"
    by (simp add: wav_def length_wav_header length_pcm_data)
  have riff: "take 4 wav = ascii ''RIFF''"
    by (simp add: wav_def wav_header_def ascii_def)
  note f = wav_fields [of "length pcmData" 16000 "concat (map pcm_bytes pcmData)", folded wav_def]
  have d: "getUint32 wav 40 = (2 * length pcmData) mod 2 ^ 32"
    using f(5) by (simp add: mult.commute)
  have d': "getUint32 wav 40 = 2 * length pcmData" if "length pcmData < 2 ^ 31"
    using that d by simp
  have smp: "getInt16 wav (44 + 2 * i) = sint (ToInt16 (scale_sample (clamp_sample (pcmData ! i))))"
    if "i < length pcmData" for i
    unfolding wav_def using that by (rule wav_sample)
  have val: "getInt16 wav (44 + 2 * i) =
         (case pcmData ! i of
            NaN \<Rightarrow> 0
          | NegInfinity \<Rightarrow> - 32768
          | PosInfinity \<Rightarrow> 32767
          | Finite v \<Rightarrow>
              if v < 0 then \<lceil>max (- 1) v * 32768\<rceil> else \<lfloor>min 1 v * 32767\<rfloor>)"
    if "i < length pcmData" for i
    using smp [OF that] by (simp only: quantized_value)
  have h: "getUint16 wav 20 = 1" "getUint16 wav 22 = 1" "getUint32 wav 24 = 16000"
    "getUint16 wav 34 = 16"
    using f(1,2,3,4) by simp_all
  show ?thesis
    using conv len riff h d d' smp val by (intro exI [of _ wav] conjI allI impI) simp_all
qed

theorem wav_header_canonical_witness:
  "(\<lambda>d. Some stereo_buffer) (blob_data recorded_blob) = Some stereo_buffer \<and>
   channelData stereo_buffer =
     [Finite (3 / 2), Finite (- 2), Finite (1 / 2), NaN] #
     [[NaN, Finite 0, PosInfinity, Finite 1]] \<and>
   (\<exists>wav. convertToWav (\<lambda>d. Some stereo_buffer) recorded_blob =
        Inr \<lparr>blob_data = wav, blob_type = ''audio/wav''\<rparr> \<and>
      length wav = 52 \<and> getUint16 wav 20 = 1 \<and> getUint16 wav 22 = 1 \<and>
      getUint32 wav 24 = 16000 \<and> getUint16 wav 34 = 16 \<and> getUint32 wav 40 = 8 \<and>
      getInt16 wav 44 = 32767 \<and> getInt16 wav 46 = - 32768 \<and> getInt16 wav 48 = 16383 \<and>
      getInt16 wav 50 = 0)"
proof -
  define pcm where "pcm = [Finite (3 / 2), Finite (- 2), Finite (1 / 2), NaN]"
  have h1: "(\<lambda>d. Some stereo_buffer) (blob_data recorded_blob) = Some stereo_buffer" by simp
  have h2: "channelData stereo_buffer = pcm # [[NaN, Finite 0, PosInfinity, Finite 1]]"
    by (simp add: stereo_buffer_def pcm_def)
  have n: "length pcm = 4" by (simp add: pcm_def)
  from wav_header_canonical [OF h1 h2] obtain wav where
    w: "convertToWav (\<lambda>d. Some stereo_buffer) recorded_blob =
        Inr \<lparr>blob_data = wav, blob_type = ''audio/wav''\<rparr>"
      "length wav = 44 + 2 * length pcm"
      "getUint16 wav 20 = 1" "getUint16 wav 22 = 1" "getUint32 wav 24 = 16000"
      "getUint16 wav 34 = 16"
      "getUint32 wav 40 = (2 * length pcm) mod 2 ^ 32"
    and val: "\<forall>i < length pcm.
       getInt16 wav (44 + 2 * i) =
         (case pcm ! i of
            NaN \<Rightarrow> 0
          | NegInfinity \<Rightarrow> - 32768
          | PosInfinity \<Rightarrow> 32767
          | Finite v \<Rightarrow>
              if v < 0 then \<lceil>max (- 1) v * 32768\<rceil> else \<lfloor>min 1 v * 32767\<rfloor>)"
    by blast
  from val [rule_format, of 0] have s0: "getInt16 wav 44 = 32767" by (simp add: pcm_def)
  from val [rule_format, of 1] have s1: "getInt16 wav 46 = - 32768" by (simp add: pcm_def)
  from val [rule_format, of 2] have s2: "getInt16 wav 48 = 16383" by (simp add: pcm_def)
  from val [rule_format, of 3] have s3: "getInt16 wav 50 = 0" by (simp add: pcm_def)
  from w s0 s1 s2 s3 n have "convertToWav (\<lambda>d. Some stereo_buffer) recorded_blob =
        Inr \<lparr>blob_data = wav, blob_type = ''audio/wav''\<rparr> \<and>
      length wav = 52 \<and> getUint16 wav 20 = 1 \<and> getUint16 wav 22 = 1 \<and>
      getUint32 wav 24 = 16000 \<and> getUint16 wav 34 = 16 \<and> getUint32 wav 40 = 8 \<and>
      getInt16 wav 44 = 32767 \<and> getInt16 wav 46 = - 32768 \<and> getInt16 wav 48 = 16383 \<and>
      getInt16 wav 50 = 0"
    by simp
  with h1 h2 show ?thesis unfolding pcm_def by blast
qed

end
